theory Spec2Isabelle
  imports Complex_Main "HOL-Library.Word" "HOL-Library.AList"
begin

unbundle bit_operations_syntax

section \<open>Data model\<close>

text \<open>
  The tree model of \<^verbatim>\<open>DecisionTree.h\<close>, with the field names that
  \<^verbatim>\<open>CompiledResolver.cpp\<close> reads. A feature value is a single-precision float; only
  its order and its NaN-ness matter to the resolver, so a finite value is carried as
  the real number it denotes.
\<close>

datatype OperationType = Bypass | Sqrt | Ln

datatype ComparatorType = LessThan | GreaterThan

datatype float_t = NaN | NegInf | Finite real | PosInf

record TreeNode =
  Bias :: float_t
  Op :: OperationType
  Comp :: ComparatorType
  DataSetFeatureIdx :: nat
  TrueChildNodeIdx :: nat
  FalseChildNodeIdx :: nat

text \<open>
  Every \<^verbatim>\<open>std::unordered_map\<close> is an association list with distinct keys:
  \<^verbatim>\<open>m[k] = v\<close> is \<^const>\<open>AList.update\<close>, \<^verbatim>\<open>m.at(k)\<close> raises
  \<^verbatim>\<open>std::out_of_range\<close> on a missing key, \<^verbatim>\<open>m.size()\<close> is the length.
\<close>

type_synonym DecisionTree_t = "(nat \<times> TreeNode) list"

type_synonym DataSet_t = "float_t list"

datatype error = OutOfRange | AssertionFailed | UndefinedBehavior | SymbolNotFound

definition map_at :: "('k \<times> 'v) list \<Rightarrow> 'k \<Rightarrow> error + 'v" where
  "map_at m k = (case map_of m k of None \<Rightarrow> Inl OutOfRange | Some v \<Rightarrow> Inr v)"

section \<open>Utilities\<close>

text \<open>
  Modelled from the spec: \<^verbatim>\<open>Utils.h\<close> (\<^verbatim>\<open>Log2\<close>, \<^verbatim>\<open>PowerOf2\<close>,
  \<^verbatim>\<open>TreeNodes\<close>) is not among the sources. Section 3 of the specification: the
  level of index i is the floor of the binary logarithm of i+1, and the first index on
  level l is 2^l - 1, which is also the number of internal nodes of a tree of l levels.
\<close>

fun Log2 :: "nat \<Rightarrow> nat" where
  "Log2 n = (if n < 2 then 0 else Suc (Log2 (n div 2)))"

definition PowerOf2 :: "nat \<Rightarrow> nat" where
  "PowerOf2 n = 2 ^ n"

definition TreeNodes :: "nat \<Rightarrow> nat" where
  "TreeNodes l = 2 ^ l - 1"

section \<open>Index arithmetic\<close>

definition getNodeIdxForSubtreeBitOffset :: "nat \<Rightarrow> nat \<Rightarrow> nat \<Rightarrow> nat" where
  "getNodeIdxForSubtreeBitOffset subtreeRootIdx subtreeLevels bitOffset =
     (let subtreeRootIdxLevel = Log2 (subtreeRootIdx + 1);
          nodeLevelInSubtree = Log2 (bitOffset + 1);
          firstIdxOnRootLevel = TreeNodes subtreeRootIdxLevel;
          firstIdxOnNodeLevel = TreeNodes (subtreeRootIdxLevel + nodeLevelInSubtree);
          subtreeRootIdxOffset = subtreeRootIdx - firstIdxOnRootLevel;
          numSubtreeNodesOnLevel = PowerOf2 nodeLevelInSubtree;
          firstSubtreeIdxOnNodeLevel =
            firstIdxOnNodeLevel + subtreeRootIdxOffset * numSubtreeNodesOnLevel;
          nodeOffsetInSubtreeLevel = bitOffset - (PowerOf2 nodeLevelInSubtree - 1)
      in firstSubtreeIdxOnNodeLevel + nodeOffsetInSubtreeLevel)"

text \<open>
  The nodes of the subtree rooted at \<open>R\<close>, level by level, as the child relation of
  the data model gives them: node \<open>i\<close> has the children \<open>2i+1\<close> (false) and
  \<open>2i+2\<close> (true).
\<close>

fun subtreeLevel :: "nat \<Rightarrow> nat \<Rightarrow> nat list" where
  "subtreeLevel R 0 = [R]"
| "subtreeLevel R (Suc l) = concat (map (\<lambda>i. [2 * i + 1, 2 * i + 2]) (subtreeLevel R l))"

definition subtreeNodes :: "nat \<Rightarrow> nat \<Rightarrow> nat set" where
  "subtreeNodes R k = (\<Union>l \<in> {..<k}. set (subtreeLevel R l))"

section \<open>Path-bitmap builder\<close>

type_synonym PathBitsMap_t = "(nat \<times> bool) list"

type_synonym LeafNodePathBitsMap_t = "nat \<times> PathBitsMap_t"

text \<open>
  The marking loop \<^verbatim>\<open>for (i = 0; i < numChildsPerCond; i++)
  result[result.size() - i - 1].second[thisBitOffset] = value\<close>. An index before the
  start of the vector is undefined behaviour.
\<close>

function markLeafPaths ::
  "nat \<Rightarrow> nat \<Rightarrow> nat \<Rightarrow> bool \<Rightarrow> LeafNodePathBitsMap_t list \<Rightarrow> error + LeafNodePathBitsMap_t list" where
  "markLeafPaths i numChildsPerCond thisBitOffset v result =
     (if i < numChildsPerCond then
        (if i < length result then
           (let pos = length result - i - 1;
                entry = result ! pos
            in markLeafPaths (Suc i) numChildsPerCond thisBitOffset v
                 (result[pos := (fst entry, AList.update thisBitOffset v (snd entry))]))
         else Inl UndefinedBehavior)
      else Inr result)"
  by pat_completeness auto
termination
  by (relation "measure (\<lambda>(i, n, b, v, r). n - i)") auto

function buildSubtreeLeafNodePathsBitsMapsRecursively ::
  "DecisionTree_t \<Rightarrow> nat \<Rightarrow> nat \<Rightarrow> (nat \<times> nat) list \<Rightarrow> LeafNodePathBitsMap_t list
     \<Rightarrow> error + LeafNodePathBitsMap_t list" where
  "buildSubtreeLeafNodePathsBitsMapsRecursively tree nodeIdx remainingLevels nodeIdxBitOffsets result =
     (if remainingLevels = 0 then Inr (result @ [(nodeIdx, [])])
      else
        (case map_at tree nodeIdx of
           Inl e \<Rightarrow> Inl e
         | Inr node \<Rightarrow>
            (case map_at nodeIdxBitOffsets nodeIdx of
               Inl e \<Rightarrow> Inl e
             | Inr thisBitOffset \<Rightarrow>
                (let numChildLeafPaths = PowerOf2 remainingLevels;
                     numChildsPerCond = numChildLeafPaths div 2
                 in case buildSubtreeLeafNodePathsBitsMapsRecursively tree (TrueChildNodeIdx node)
                           (remainingLevels - 1) nodeIdxBitOffsets result of
                      Inl e \<Rightarrow> Inl e
                    | Inr result1 \<Rightarrow>
                       (case markLeafPaths 0 numChildsPerCond thisBitOffset True result1 of
                          Inl e \<Rightarrow> Inl e
                        | Inr result2 \<Rightarrow>
                           (case buildSubtreeLeafNodePathsBitsMapsRecursively tree
                                   (FalseChildNodeIdx node) (remainingLevels - 1)
                                   nodeIdxBitOffsets result2 of
                              Inl e \<Rightarrow> Inl e
                            | Inr result3 \<Rightarrow>
                               markLeafPaths 0 numChildsPerCond thisBitOffset False result3))))))"
  by pat_completeness auto
termination
  by (relation "measure (\<lambda>(t, n, r, b, res). r)") auto

section \<open>Variant enumerator\<close>

text \<open>
  The condition vectors of the enumerator are C++ \<^verbatim>\<open>unsigned\<close> values, 32 bits wide.
  Shifting one by 32 or more is undefined behaviour in C++; the model returns
  \<^const>\<open>UndefinedBehavior\<close> there. An \<^verbatim>\<open>assert\<close> that fails is
  \<^const>\<open>AssertionFailed\<close>.
\<close>

fun buildFixedConditionVectorTemplate_loop :: "PathBitsMap_t \<Rightarrow> 32 word \<Rightarrow> error + 32 word" where
  "buildFixedConditionVectorTemplate_loop [] fixedBitsVector = Inr fixedBitsVector"
| "buildFixedConditionVectorTemplate_loop (mapEntry # rest) fixedBitsVector =
     (let bit = (if snd mapEntry then 1 else 0) :: 32 word
      in if fst mapEntry \<ge> 32 then Inl UndefinedBehavior
         else (let vectorBit = push_bit (fst mapEntry) bit
               in buildFixedConditionVectorTemplate_loop rest (fixedBitsVector OR vectorBit)))"

definition buildFixedConditionVectorTemplate :: "PathBitsMap_t \<Rightarrow> error + 32 word" where
  "buildFixedConditionVectorTemplate leafNodePathBitsMap =
     buildFixedConditionVectorTemplate_loop leafNodePathBitsMap 0"

function buildCanonicalConditionVectorVariantsRecursively ::
  "32 word \<Rightarrow> nat list \<Rightarrow> nat \<Rightarrow> 32 word list \<Rightarrow> error + 32 word list" where
  "buildCanonicalConditionVectorVariantsRecursively conditionVector variableBitOffsets bitToVaryIdx result =
     (if bitToVaryIdx < length variableBitOffsets then
        (let bitToVary = variableBitOffsets ! bitToVaryIdx
         in if bitToVary \<ge> 32 then Inl UndefinedBehavior
            else
              (let vectorTrueBit = (push_bit bitToVary 1 :: 32 word)
               in if (conditionVector AND NOT vectorTrueBit) \<noteq> conditionVector
                  then Inl AssertionFailed
                  else
                    (case buildCanonicalConditionVectorVariantsRecursively
                            (conditionVector OR vectorTrueBit) variableBitOffsets
                            (bitToVaryIdx + 1) result of
                       Inl e \<Rightarrow> Inl e
                     | Inr result1 \<Rightarrow>
                         buildCanonicalConditionVectorVariantsRecursively conditionVector
                           variableBitOffsets (bitToVaryIdx + 1) result1)))
      else Inr (result @ [conditionVector]))"
  by pat_completeness auto
termination
  by (relation "measure (\<lambda>(c, offs, i, r). length offs - i)") auto

definition buildCanonicalConditionVectorVariants ::
  "nat \<Rightarrow> 32 word \<Rightarrow> PathBitsMap_t \<Rightarrow> 32 word list \<Rightarrow> error + 32 word list" where
  "buildCanonicalConditionVectorVariants conditionVectorSize fixedBitsTemplate leafNodePathBitsMap result =
     (let variableBitOffsets =
            filter (\<lambda>i. map_of leafNodePathBitsMap i = None) [0..<conditionVectorSize]
      in if variableBitOffsets = [] then Inr (result @ [fixedBitsTemplate])
         else
           (let expectedVariants = PowerOf2 (length variableBitOffsets) mod 2 ^ 32
            in case buildCanonicalConditionVectorVariantsRecursively fixedBitsTemplate
                      variableBitOffsets 0 result of
                 Inl e \<Rightarrow> Inl e
               | Inr result1 \<Rightarrow>
                   if length result1 = expectedVariants then Inr result1
                   else Inl AssertionFailed))"

section \<open>Emitted code\<close>

text \<open>
  The emitter builds LLVM IR. The model keeps the part of the IR that decides the
  value an evaluator returns. A node predicate is a load of one feature, an optional
  intrinsic call and a float comparison against the bias. A subtree switch computes a
  condition vector by OR-ing the zero-extended comparison results, each shifted by a
  constant, and switches on it; every case block stores either a constant node index or
  the result of a nested subtree switch into the result slot.

  An integer constant carries the bit width of its type, as an LLVM
  \<^verbatim>\<open>ConstantInt\<close> does; creating one from a wider value truncates it.
\<close>

datatype fcmp_predicate = FCMP_OLT | FCMP_OGT | FCMP_ULT | FCMP_UGT

datatype float_ir = LoadFeature nat | CallSqrt float_ir | CallLog float_ir

datatype bool_ir = FCmp fcmp_predicate float_ir float_t

datatype const_int = ConstantInt (int_width: nat) (int_value: nat)

definition ConstantInt_get :: "nat \<Rightarrow> nat \<Rightarrow> const_int" where
  "ConstantInt_get width v = ConstantInt width (v mod 2 ^ width)"

definition APInt :: "nat \<Rightarrow> nat \<Rightarrow> const_int" where
  "APInt width v = ConstantInt width (v mod 2 ^ width)"

datatype eval_ir =
    StoreConstant const_int
  | SubtreeSwitch (cond_type: nat) (cond_code: "(bool_ir \<times> const_int) list")
      (switch_cases: "(const_int list \<times> eval_ir) list")

subsection \<open>Meaning of the emitted code\<close>

text \<open>
  The intrinsics \<^verbatim>\<open>llvm.sqrt\<close> and \<^verbatim>\<open>llvm.log\<close> are parameters. A load
  past the end of the input vector is undefined (\<^const>\<open>None\<close>). The ordered
  comparisons of LLVM are false when an operand is NaN, the unordered ones are true.

  The emitter gives the shift amounts and the case constants integer types that differ
  from the type of the condition vector. The meaning below reads every constant by its
  numerical value: a shift by the amount's value, and a switch that takes the case whose
  value equals the value of the condition vector. The default target of the switch loads
  the result slot before any store to it, an undefined value (\<^const>\<open>None\<close>).
\<close>

record Intrinsics =
  llvm_sqrt :: "float_t \<Rightarrow> float_t"
  llvm_log :: "float_t \<Rightarrow> float_t"

fun float_lt :: "float_t \<Rightarrow> float_t \<Rightarrow> bool" where
  "float_lt NaN _ = False"
| "float_lt _ NaN = False"
| "float_lt NegInf NegInf = False"
| "float_lt NegInf _ = True"
| "float_lt (Finite a) (Finite b) = (a < b)"
| "float_lt (Finite a) PosInf = True"
| "float_lt (Finite a) NegInf = False"
| "float_lt PosInf _ = False"

definition isnan :: "float_t \<Rightarrow> bool" where
  "isnan v = (v = NaN)"

fun eval_fcmp :: "fcmp_predicate \<Rightarrow> float_t \<Rightarrow> float_t \<Rightarrow> bool" where
  "eval_fcmp FCMP_OLT a b = (\<not> isnan a \<and> \<not> isnan b \<and> float_lt a b)"
| "eval_fcmp FCMP_OGT a b = (\<not> isnan a \<and> \<not> isnan b \<and> float_lt b a)"
| "eval_fcmp FCMP_ULT a b = (isnan a \<or> isnan b \<or> float_lt a b)"
| "eval_fcmp FCMP_UGT a b = (isnan a \<or> isnan b \<or> float_lt b a)"

fun eval_float_ir :: "Intrinsics \<Rightarrow> DataSet_t \<Rightarrow> float_ir \<Rightarrow> float_t option" where
  "eval_float_ir intr data (LoadFeature i) = (if i < length data then Some (data ! i) else None)"
| "eval_float_ir intr data (CallSqrt e) = map_option (llvm_sqrt intr) (eval_float_ir intr data e)"
| "eval_float_ir intr data (CallLog e) = map_option (llvm_log intr) (eval_float_ir intr data e)"

fun eval_bool_ir :: "Intrinsics \<Rightarrow> DataSet_t \<Rightarrow> bool_ir \<Rightarrow> bool option" where
  "eval_bool_ir intr data (FCmp p e bias) =
     map_option (\<lambda>v. eval_fcmp p v bias) (eval_float_ir intr data e)"

fun exec_cond_code ::
  "Intrinsics \<Rightarrow> DataSet_t \<Rightarrow> nat \<Rightarrow> (bool_ir \<times> const_int) list \<Rightarrow> nat \<Rightarrow> nat option" where
  "exec_cond_code intr data ty [] conditionVector = Some conditionVector"
| "exec_cond_code intr data ty ((cmp, shiftAmount) # rest) conditionVector =
     (case eval_bool_ir intr data cmp of
        None \<Rightarrow> None
      | Some evalResultBit \<Rightarrow>
          (if int_value shiftAmount \<ge> ty then None
           else
             (let evalResultInt = (if evalResultBit then 1 else 0) :: nat;
                  vectorBit = take_bit ty (push_bit (int_value shiftAmount) evalResultInt)
              in exec_cond_code intr data ty rest (conditionVector OR vectorBit))))"

fun exec_eval_ir :: "Intrinsics \<Rightarrow> DataSet_t \<Rightarrow> eval_ir \<Rightarrow> nat option"
  and exec_switch_cases ::
    "Intrinsics \<Rightarrow> DataSet_t \<Rightarrow> nat \<Rightarrow> (const_int list \<times> eval_ir) list \<Rightarrow> nat option" where
  "exec_eval_ir intr data (StoreConstant c) = Some (int_value c)"
| "exec_eval_ir intr data (SubtreeSwitch ty code cases) =
     (case exec_cond_code intr data ty code 0 of
        None \<Rightarrow> None
      | Some conditionVectorVal \<Rightarrow> exec_switch_cases intr data conditionVectorVal cases)"
| "exec_switch_cases intr data conditionVectorVal [] = None"
| "exec_switch_cases intr data conditionVectorVal (c # rest) =
     (if conditionVectorVal \<in> int_value ` set (fst c)
      then exec_eval_ir intr data (snd c)
      else exec_switch_cases intr data conditionVectorVal rest)"

section \<open>Emitter\<close>

definition emitOperator :: "OperationType \<Rightarrow> float_ir \<Rightarrow> float_ir" where
  "emitOperator op v = (case op of Bypass \<Rightarrow> v | Sqrt \<Rightarrow> CallSqrt v | Ln \<Rightarrow> CallLog v)"

definition emitComparison :: "ComparatorType \<Rightarrow> float_t \<Rightarrow> float_ir \<Rightarrow> bool_ir" where
  "emitComparison cmp bias v =
     (case cmp of LessThan \<Rightarrow> FCmp FCMP_OLT v bias | GreaterThan \<Rightarrow> FCmp FCMP_OGT v bias)"

definition emitSingleNodeEvaluaton :: "TreeNode \<Rightarrow> bool_ir" where
  "emitSingleNodeEvaluaton node =
     (let dataSetFeatureVal = LoadFeature (DataSetFeatureIdx node);
          comparableFeatureVal = emitOperator (Op node) dataSetFeatureVal
      in emitComparison (Comp node) (Bias node) comparableFeatureVal)"

text \<open>
  The loop of \<^verbatim>\<open>emitComputeConditionVector\<close>; its state is the code emitted so far
  and the map \<^verbatim>\<open>bitOffsets\<close>. The condition vector has the type \<open>returnTy\<close>, the
  64-bit integer type. The shift amounts are 6-bit constants.
\<close>

function emitComputeConditionVector_loop ::
  "DecisionTree_t \<Rightarrow> nat \<Rightarrow> nat \<Rightarrow> nat \<Rightarrow> nat \<Rightarrow> (bool_ir \<times> const_int) list \<Rightarrow> (nat \<times> nat) list
     \<Rightarrow> error + ((bool_ir \<times> const_int) list \<times> (nat \<times> nat) list)" where
  "emitComputeConditionVector_loop tree rootNodeIdx subtreeLevels numNodes bitOffset code bitOffsets =
     (if bitOffset < numNodes then
        (let nodeIdx = getNodeIdxForSubtreeBitOffset rootNodeIdx subtreeLevels bitOffset;
             bitOffsets1 = AList.update nodeIdx bitOffset bitOffsets
         in case map_at tree nodeIdx of
              Inl e \<Rightarrow> Inl e
            | Inr node \<Rightarrow>
                (let evalResultBit = emitSingleNodeEvaluaton node
                 in emitComputeConditionVector_loop tree rootNodeIdx subtreeLevels numNodes
                      (Suc bitOffset) (code @ [(evalResultBit, APInt 6 bitOffset)]) bitOffsets1))
      else Inr (code, bitOffsets))"
  by pat_completeness auto
termination
  by (relation "measure (\<lambda>(t, r, l, n, b, c, m). n - b)") auto

definition returnTy :: nat where
  "returnTy = 64"

definition emitComputeConditionVector ::
  "DecisionTree_t \<Rightarrow> nat \<Rightarrow> nat \<Rightarrow> nat \<Rightarrow> (nat \<times> nat) list
     \<Rightarrow> error + ((bool_ir \<times> const_int) list \<times> (nat \<times> nat) list)" where
  "emitComputeConditionVector tree rootNodeIdx subtreeLevels numNodes bitOffsets =
     emitComputeConditionVector_loop tree rootNodeIdx subtreeLevels numNodes 0 [] bitOffsets"

text \<open>
  \<^verbatim>\<open>emitSubtreeSwitchesRecursively\<close> and its loop over the leaf descriptors, which
  holds the recursive call. The case constants have the type of \<open>numNodes + 1\<close> bits.
  A node index is an \<^verbatim>\<open>int64_t\<close> in the source and a natural number here; the 64-bit
  constant made from one holds it unchanged.
\<close>

function emitSubtreeSwitchesRecursively ::
    "DecisionTree_t \<Rightarrow> nat \<Rightarrow> nat \<Rightarrow> nat \<Rightarrow> error + eval_ir"
  and emitSubtreeSwitchesRecursively_leaves ::
    "DecisionTree_t \<Rightarrow> nat \<Rightarrow> nat \<Rightarrow> nat \<Rightarrow> LeafNodePathBitsMap_t list
       \<Rightarrow> (const_int list \<times> eval_ir) list \<Rightarrow> error + (const_int list \<times> eval_ir) list" where
  "emitSubtreeSwitchesRecursively tree switchRootNodeIdx switchLevels nestedSwitches =
     (let numNodes = TreeNodes switchLevels;
          numContinuations = PowerOf2 switchLevels
      in case emitComputeConditionVector tree switchRootNodeIdx switchLevels numNodes [] of
           Inl e \<Rightarrow> Inl e
         | Inr (conditionVector, subtreeNodeIdxBitOffsets) \<Rightarrow>
            (case buildSubtreeLeafNodePathsBitsMapsRecursively tree switchRootNodeIdx switchLevels
                    subtreeNodeIdxBitOffsets [] of
               Inl e \<Rightarrow> Inl e
             | Inr leafNodePathBitsMaps \<Rightarrow>
                 if length leafNodePathBitsMaps \<noteq> numContinuations then Inl AssertionFailed
                 else
                   (case emitSubtreeSwitchesRecursively_leaves tree switchLevels nestedSwitches
                           numNodes leafNodePathBitsMaps [] of
                      Inl e \<Rightarrow> Inl e
                    | Inr cases \<Rightarrow>
                        Inr (SubtreeSwitch returnTy conditionVector cases))))"
| "emitSubtreeSwitchesRecursively_leaves tree switchLevels nestedSwitches numNodes [] cases =
     Inr cases"
| "emitSubtreeSwitchesRecursively_leaves tree switchLevels nestedSwitches numNodes
     (leafNodeInfo # rest) cases =
     (let leafNodeIdx = fst leafNodeInfo;
          pathBitsMap = snd leafNodeInfo
      in case (if nestedSwitches > 0
               then emitSubtreeSwitchesRecursively tree leafNodeIdx switchLevels (nestedSwitches - 1)
               else Inr (StoreConstant (ConstantInt returnTy leafNodeIdx))) of
           Inl e \<Rightarrow> Inl e
         | Inr nodeBB \<Rightarrow>
            (case buildFixedConditionVectorTemplate pathBitsMap of
               Inl e \<Rightarrow> Inl e
             | Inr conditionVectorTemplate \<Rightarrow>
                (case buildCanonicalConditionVectorVariants numNodes conditionVectorTemplate
                        pathBitsMap [] of
                   Inl e \<Rightarrow> Inl e
                 | Inr canonicalVariants \<Rightarrow>
                    (let conditionVectorTy = numNodes + 1;
                         caseVals = map (\<lambda>conditionVector.
                                      ConstantInt_get conditionVectorTy (unat conditionVector))
                                    canonicalVariants
                     in emitSubtreeSwitchesRecursively_leaves tree switchLevels nestedSwitches
                          numNodes rest (cases @ [(caseVals, nodeBB)])))))"
  by pat_completeness auto
termination
  by (relation "measures
        [\<lambda>x. case x of Inl (t, r, l, n) \<Rightarrow> 2 * n + 1 | Inr (t, l, n, nn, ls, cs) \<Rightarrow> 2 * n,
         \<lambda>x. case x of Inl _ \<Rightarrow> 0 | Inr (t, l, n, nn, ls, cs) \<Rightarrow> length ls]")
     auto

definition emitSubtreeEvaluation :: "DecisionTree_t \<Rightarrow> nat \<Rightarrow> nat \<Rightarrow> nat \<Rightarrow> error + eval_ir" where
  "emitSubtreeEvaluation tree rootNodeIdx subtreeLevels switchLevels =
     (if switchLevels = 0 then Inl UndefinedBehavior
      else if subtreeLevels mod switchLevels \<noteq> 0 then Inl AssertionFailed
      else emitSubtreeSwitchesRecursively tree rootNodeIdx switchLevels
             (subtreeLevels div switchLevels - 1))"

section \<open>JIT host\<close>

text \<open>
  A function of the module is the pair of the node index in its name
  \<^verbatim>\<open>nodeEvaluator_<index>\<close> and its body.

  \<^verbatim>\<open>llvm::verifyFunction\<close> returns true when the function is broken. The model
  holds two rules of the LLVM verifier: both operands of a binary operator have the
  same type, and every case constant of a switch has the type of the switch value.
\<close>

type_synonym function_ir = "nat \<times> eval_ir"

type_synonym SubtreeEvaluator_f = "DataSet_t \<Rightarrow> nat option"

type_synonym SubtreeEvals_t = "(nat \<times> SubtreeEvaluator_f) list"

fun well_typed_ir :: "eval_ir \<Rightarrow> bool"
  and well_typed_cases :: "nat \<Rightarrow> (const_int list \<times> eval_ir) list \<Rightarrow> bool" where
  "well_typed_ir (StoreConstant c) = (int_width c = returnTy)"
| "well_typed_ir (SubtreeSwitch ty code cases) =
     (list_all (\<lambda>step. int_width (snd step) = ty) code \<and> well_typed_cases ty cases)"
| "well_typed_cases ty [] = True"
| "well_typed_cases ty (c # rest) =
     (list_all (\<lambda>caseVal. int_width caseVal = ty) (fst c) \<and> well_typed_ir (snd c)
      \<and> well_typed_cases ty rest)"

definition verifyFunction :: "function_ir \<Rightarrow> bool" where
  "verifyFunction evalFn = (\<not> well_typed_ir (snd evalFn))"

text \<open>
  Modelled from the spec: \<^verbatim>\<open>SimpleOrcJit.h\<close> is not among the sources. Section 4.7
  of the specification: the host submits the module to the JIT and afterwards resolves
  each evaluator by its symbol name to a function pointer. The compiled function
  computes what its body means.
\<close>

definition submitModule :: "Intrinsics \<Rightarrow> function_ir list \<Rightarrow> SubtreeEvals_t" where
  "submitModule intr TheModule =
     map (\<lambda>evalFn. (fst evalFn, \<lambda>data. exec_eval_ir intr data (snd evalFn))) TheModule"

definition getEvaluatorFnPtr :: "SubtreeEvals_t \<Rightarrow> nat \<Rightarrow> error + SubtreeEvaluator_f" where
  "getEvaluatorFnPtr TheCompiler name =
     (case map_of TheCompiler name of None \<Rightarrow> Inl SymbolNotFound | Some f \<Rightarrow> Inr f)"

section \<open>Driver\<close>

function getNumCompiledEvaluators_loop :: "nat \<Rightarrow> nat \<Rightarrow> nat \<Rightarrow> nat \<Rightarrow> nat" where
  "getNumCompiledEvaluators_loop compiledFunctionDepth evaluatorDepth i expectedEvaluators =
     (if i < evaluatorDepth
      then getNumCompiledEvaluators_loop compiledFunctionDepth evaluatorDepth (Suc i)
             (expectedEvaluators + PowerOf2 (compiledFunctionDepth * i))
      else expectedEvaluators)"
  by pat_completeness auto
termination
  by (relation "measure (\<lambda>(d, n, i, e). n - i)") auto

text \<open>A division by zero is undefined behaviour.\<close>

definition getNumCompiledEvaluators :: "nat \<Rightarrow> nat \<Rightarrow> error + nat" where
  "getNumCompiledEvaluators treeDepth compiledFunctionDepth =
     (if compiledFunctionDepth = 0 then Inl UndefinedBehavior
      else
        (let evaluatorDepth = (treeDepth + compiledFunctionDepth - 1) div compiledFunctionDepth
         in Inr (getNumCompiledEvaluators_loop compiledFunctionDepth evaluatorDepth 0 0)))"

text \<open>
  The two nested loops of \<^verbatim>\<open>compileEvaluators\<close>. The result of
  \<^verbatim>\<open>llvm::verifyFunction\<close> is computed and not used, as in the source. The loop
  over the levels advances by \<open>nodeLevelsPerFunction\<close>; \<^verbatim>\<open>compileEvaluators\<close>
  reaches it only with a positive step, having evaluated
  \<^verbatim>\<open>treeDepth % nodeLevelsPerFunction\<close> before.
\<close>

function compileEvaluators_nodes ::
  "DecisionTree_t \<Rightarrow> nat \<Rightarrow> nat \<Rightarrow> nat \<Rightarrow> nat \<Rightarrow> function_ir list \<Rightarrow> nat list
     \<Rightarrow> error + (function_ir list \<times> nat list)" where
  "compileEvaluators_nodes tree nodeLevelsPerFunction nodeLevelsPerSwitch nodeIdx
     firstIdxOnNextLevel TheModule processedNodes =
     (if nodeIdx < firstIdxOnNextLevel then
        (case map_at tree nodeIdx of
           Inl e \<Rightarrow> Inl e
         | Inr node \<Rightarrow>
            (case emitSubtreeEvaluation tree nodeIdx nodeLevelsPerFunction nodeLevelsPerSwitch of
               Inl e \<Rightarrow> Inl e
             | Inr nextNodeIdx \<Rightarrow>
                (let evalFn = (nodeIdx, nextNodeIdx);
                     broken = verifyFunction evalFn
                 in compileEvaluators_nodes tree nodeLevelsPerFunction nodeLevelsPerSwitch
                      (Suc nodeIdx) firstIdxOnNextLevel (TheModule @ [evalFn])
                      (nodeIdx # processedNodes))))
      else Inr (TheModule, processedNodes))"
  by pat_completeness auto
termination
  by (relation "measure (\<lambda>(t, f, s, i, n, m, p). n - i)") auto

function compileEvaluators_levels ::
  "DecisionTree_t \<Rightarrow> nat \<Rightarrow> nat \<Rightarrow> nat \<Rightarrow> nat \<Rightarrow> function_ir list \<Rightarrow> nat list
     \<Rightarrow> error + (function_ir list \<times> nat list)" where
  "compileEvaluators_levels tree treeDepth nodeLevelsPerFunction nodeLevelsPerSwitch level
     TheModule processedNodes =
     (if level < treeDepth \<and> 0 < nodeLevelsPerFunction then
        (let firstIdxOnLevel = TreeNodes level;
             firstIdxOnNextLevel = TreeNodes (level + 1)
         in case compileEvaluators_nodes tree nodeLevelsPerFunction nodeLevelsPerSwitch
                   firstIdxOnLevel firstIdxOnNextLevel TheModule processedNodes of
              Inl e \<Rightarrow> Inl e
            | Inr (TheModule1, processedNodes1) \<Rightarrow>
                compileEvaluators_levels tree treeDepth nodeLevelsPerFunction nodeLevelsPerSwitch
                  (level + nodeLevelsPerFunction) TheModule1 processedNodes1)
      else Inr (TheModule, processedNodes))"
  by pat_completeness auto
termination
  by (relation "measure (\<lambda>(t, d, f, s, l, m, p). d - l)") auto

fun collectEvaluators :: "SubtreeEvals_t \<Rightarrow> nat list \<Rightarrow> SubtreeEvals_t \<Rightarrow> error + SubtreeEvals_t" where
  "collectEvaluators TheCompiler [] evaluators = Inr evaluators"
| "collectEvaluators TheCompiler (nodeIdx # processedNodes) evaluators =
     (case getEvaluatorFnPtr TheCompiler nodeIdx of
        Inl e \<Rightarrow> Inl e
      | Inr f \<Rightarrow> collectEvaluators TheCompiler processedNodes (AList.update nodeIdx f evaluators))"

definition compileEvaluators ::
  "Intrinsics \<Rightarrow> DecisionTree_t \<Rightarrow> nat \<Rightarrow> nat \<Rightarrow> nat \<Rightarrow> error + SubtreeEvals_t" where
  "compileEvaluators intr tree treeDepth nodeLevelsPerFunction nodeLevelsPerSwitch =
     (if nodeLevelsPerFunction = 0 then Inl UndefinedBehavior
      else if treeDepth mod nodeLevelsPerFunction \<noteq> 0 then Inl AssertionFailed
      else
        (case getNumCompiledEvaluators treeDepth nodeLevelsPerFunction of
           Inl e \<Rightarrow> Inl e
         | Inr expectedEvaluators \<Rightarrow>
            (case compileEvaluators_levels tree treeDepth nodeLevelsPerFunction
                    nodeLevelsPerSwitch 0 [] [] of
               Inl e \<Rightarrow> Inl e
             | Inr (TheModule, processedNodes) \<Rightarrow>
                (let TheCompiler = submitModule intr TheModule
                 in case collectEvaluators TheCompiler processedNodes [] of
                      Inl e \<Rightarrow> Inl e
                    | Inr evaluators \<Rightarrow>
                        if expectedEvaluators = length evaluators then Inr evaluators
                        else Inl AssertionFailed))))"

text \<open>
  \<^verbatim>\<open>loadEvaluators\<close> takes the evaluators from the module of the object cache, here
  the parameter \<open>TheCompiler\<close>. It calls \<^verbatim>\<open>getNumCompiledEvaluators\<close> first, which
  divides by \<open>nodeLevelsPerFunction\<close>.
\<close>

function loadEvaluators_offsets ::
  "SubtreeEvals_t \<Rightarrow> nat \<Rightarrow> nat \<Rightarrow> nat \<Rightarrow> SubtreeEvals_t \<Rightarrow> error + SubtreeEvals_t" where
  "loadEvaluators_offsets TheCompiler firstNodeIdxOnLevel numNodesOnLevel offset evaluators =
     (if offset < numNodesOnLevel then
        (let nodeIdx = firstNodeIdxOnLevel + offset
         in case getEvaluatorFnPtr TheCompiler nodeIdx of
              Inl e \<Rightarrow> Inl e
            | Inr f \<Rightarrow>
                loadEvaluators_offsets TheCompiler firstNodeIdxOnLevel numNodesOnLevel
                  (Suc offset) (AList.update nodeIdx f evaluators))
      else Inr evaluators)"
  by pat_completeness auto
termination
  by (relation "measure (\<lambda>(c, f, n, off, e). n - off)") auto

function loadEvaluators_levels ::
  "SubtreeEvals_t \<Rightarrow> nat \<Rightarrow> nat \<Rightarrow> nat \<Rightarrow> SubtreeEvals_t \<Rightarrow> error + SubtreeEvals_t" where
  "loadEvaluators_levels TheCompiler treeDepth nodeLevelsPerFunction level evaluators =
     (if level < treeDepth \<and> 0 < nodeLevelsPerFunction then
        (let firstNodeIdxOnLevel = TreeNodes level;
             numNodesOnLevel = PowerOf2 level
         in case loadEvaluators_offsets TheCompiler firstNodeIdxOnLevel numNodesOnLevel 0
                   evaluators of
              Inl e \<Rightarrow> Inl e
            | Inr evaluators1 \<Rightarrow>
                loadEvaluators_levels TheCompiler treeDepth nodeLevelsPerFunction
                  (level + nodeLevelsPerFunction) evaluators1)
      else Inr evaluators)"
  by pat_completeness auto
termination
  by (relation "measure (\<lambda>(c, d, f, l, e). d - l)") auto

definition loadEvaluators :: "SubtreeEvals_t \<Rightarrow> nat \<Rightarrow> nat \<Rightarrow> error + SubtreeEvals_t" where
  "loadEvaluators TheCompiler treeDepth nodeLevelsPerFunction =
     (case getNumCompiledEvaluators treeDepth nodeLevelsPerFunction of
        Inl e \<Rightarrow> Inl e
      | Inr expectedEvaluators \<Rightarrow>
         (case loadEvaluators_levels TheCompiler treeDepth nodeLevelsPerFunction 0 [] of
            Inl e \<Rightarrow> Inl e
          | Inr evaluators \<Rightarrow>
              if expectedEvaluators = length evaluators then Inr evaluators
              else Inl AssertionFailed))"

text \<open>
  The loop of \<^verbatim>\<open>run\<close> has no bound of its own: \<^const>\<open>None\<close> is a run that does not
  return. \<^verbatim>\<open>CompiledEvaluators.at(idx)\<close> raises on a missing key; an evaluator whose
  result is undefined makes the run undefined.
\<close>

partial_function (option) run_loop ::
  "SubtreeEvals_t \<Rightarrow> nat \<Rightarrow> DataSet_t \<Rightarrow> nat \<Rightarrow> (error + nat) option" where
  "run_loop CompiledEvaluators firstResultIdx data idx =
     (if idx < firstResultIdx then
        (case map_at CompiledEvaluators idx of
           Inl e \<Rightarrow> Some (Inl e)
         | Inr compiledEvaluator \<Rightarrow>
            (case compiledEvaluator data of
               None \<Rightarrow> Some (Inl UndefinedBehavior)
             | Some idx1 \<Rightarrow> run_loop CompiledEvaluators firstResultIdx data idx1))
      else Some (Inr idx))"

definition run :: "SubtreeEvals_t \<Rightarrow> DecisionTree_t \<Rightarrow> DataSet_t \<Rightarrow> (error + nat) option" where
  "run CompiledEvaluators tree dataSet = run_loop CompiledEvaluators (length tree) dataSet 0"

text \<open>The indices that the loop of \<^verbatim>\<open>run\<close> holds in \<open>idx\<close>, one after the other.\<close>

inductive reached :: "SubtreeEvals_t \<Rightarrow> nat \<Rightarrow> DataSet_t \<Rightarrow> nat \<Rightarrow> bool"
  for CompiledEvaluators :: SubtreeEvals_t and firstResultIdx :: nat and data :: DataSet_t where
  reached_start: "reached CompiledEvaluators firstResultIdx data 0"
| reached_step: "reached CompiledEvaluators firstResultIdx data idx \<Longrightarrow> idx < firstResultIdx \<Longrightarrow>
     map_at CompiledEvaluators idx = Inr compiledEvaluator \<Longrightarrow> compiledEvaluator data = Some idx1 \<Longrightarrow>
     reached CompiledEvaluators firstResultIdx data idx1"

section \<open>Specification\<close>

text \<open>
  A perfect tree of depth \<open>D\<close> (section 3 of the specification): the internal nodes
  have the indices below \<open>2^D - 1\<close>, and node \<open>i\<close> has the false child \<open>2i+1\<close> and
  the true child \<open>2i+2\<close>.
\<close>

definition perfect_tree :: "DecisionTree_t \<Rightarrow> nat \<Rightarrow> bool" where
  "perfect_tree tree D =
     (distinct (map fst tree) \<and> set (map fst tree) = {..<2 ^ D - 1} \<and>
      list_all (\<lambda>entry. TrueChildNodeIdx (snd entry) = 2 * fst entry + 2
                      \<and> FalseChildNodeIdx (snd entry) = 2 * fst entry + 1) tree)"

text \<open>
  The reference interpretive traversal, in the words of the specification: with
  \<open>v = input[featureIdx]\<close> and \<open>w = op(v)\<close> a node is true iff
  \<open>comparator(w, bias)\<close> holds, a comparison that is false on NaN; the traversal
  starts at node 0 and takes the true child \<open>2i+2\<close> or the false child \<open>2i+1\<close>
  until it reaches a leaf, an index from \<open>N = 2^D - 1\<close> on.
\<close>

definition apply_op :: "Intrinsics \<Rightarrow> OperationType \<Rightarrow> float_t \<Rightarrow> float_t" where
  "apply_op intr op v = (case op of Bypass \<Rightarrow> v | Sqrt \<Rightarrow> llvm_sqrt intr v | Ln \<Rightarrow> llvm_log intr v)"

definition comparator :: "ComparatorType \<Rightarrow> float_t \<Rightarrow> float_t \<Rightarrow> bool" where
  "comparator cmp w bias = (case cmp of LessThan \<Rightarrow> float_lt w bias | GreaterThan \<Rightarrow> float_lt bias w)"

definition node_predicate :: "Intrinsics \<Rightarrow> TreeNode \<Rightarrow> DataSet_t \<Rightarrow> bool option" where
  "node_predicate intr node x =
     (if DataSetFeatureIdx node < length x
      then Some (comparator (Comp node) (apply_op intr (Op node) (x ! DataSetFeatureIdx node)) (Bias node))
      else None)"

function reference_traversal ::
  "Intrinsics \<Rightarrow> DecisionTree_t \<Rightarrow> nat \<Rightarrow> DataSet_t \<Rightarrow> nat \<Rightarrow> nat option" where
  "reference_traversal intr tree N x i =
     (if i < N then
        (case map_of tree i of
           None \<Rightarrow> None
         | Some node \<Rightarrow>
            (case node_predicate intr node x of
               None \<Rightarrow> None
             | Some b \<Rightarrow> reference_traversal intr tree N x (if b then 2 * i + 2 else 2 * i + 1)))
      else Some i)"
  by pat_completeness auto
termination
  by (relation "measure (\<lambda>(intr, t, N, x, i). N - i)") auto

definition reference_interpreter :: "Intrinsics \<Rightarrow> DecisionTree_t \<Rightarrow> nat \<Rightarrow> DataSet_t \<Rightarrow> nat option" where
  "reference_interpreter intr tree D x = reference_traversal intr tree (2 ^ D - 1) x 0"

text \<open>
  A bounded part of the traversal: \<open>r\<close> steps down from node \<open>i\<close>, with the same
  node predicate and the same children.
\<close>

fun descend :: "Intrinsics \<Rightarrow> DecisionTree_t \<Rightarrow> DataSet_t \<Rightarrow> nat \<Rightarrow> nat \<Rightarrow> nat option" where
  "descend intr tree x i 0 = Some i"
| "descend intr tree x i (Suc r) =
     (case map_of tree i of
        None \<Rightarrow> None
      | Some node \<Rightarrow>
         (case node_predicate intr node x of
            None \<Rightarrow> None
          | Some b \<Rightarrow> descend intr tree x (if b then 2 * i + 2 else 2 * i + 1) r))"

text \<open>
  The caller's obligation of section 4.8 of the specification: the input vector is
  longer than every feature index of the tree.
\<close>

definition features_in_range :: "DecisionTree_t \<Rightarrow> DataSet_t \<Rightarrow> bool" where
  "features_in_range tree x = list_all (\<lambda>entry. DataSetFeatureIdx (snd entry) < length x) tree"

text \<open>
  The contract of the compiled artifact (section 3 of the specification): there is
  one evaluator for every internal node on a level that is a multiple of
  \<open>functionDepth\<close>, and the evaluator of node \<open>i\<close> returns a node that lies
  \<open>functionDepth\<close> levels below \<open>i\<close> in the subtree of \<open>i\<close>.
\<close>

definition evaluatorRoots :: "nat \<Rightarrow> nat \<Rightarrow> nat set" where
  "evaluatorRoots D functionDepth =
     {i. i < 2 ^ D - 1 \<and> functionDepth dvd Log2 (i + 1)}"

definition evaluators_descend :: "SubtreeEvals_t \<Rightarrow> nat \<Rightarrow> DataSet_t \<Rightarrow> bool" where
  "evaluators_descend CompiledEvaluators functionDepth data =
     list_all (\<lambda>entry. case snd entry data of
                 None \<Rightarrow> False
               | Some idx1 \<Rightarrow> idx1 \<in> set (subtreeLevel (fst entry) functionDepth))
       CompiledEvaluators"

definition artifact_contract :: "SubtreeEvals_t \<Rightarrow> nat \<Rightarrow> nat \<Rightarrow> DataSet_t \<Rightarrow> bool" where
  "artifact_contract CompiledEvaluators D functionDepth data =
     (distinct (map fst CompiledEvaluators)
      \<and> set (map fst CompiledEvaluators) = evaluatorRoots D functionDepth
      \<and> evaluators_descend CompiledEvaluators functionDepth data)"

text \<open>
  The node indices that the loops of \<^verbatim>\<open>compileEvaluators\<close> and
  \<^verbatim>\<open>loadEvaluators\<close> visit from a level on, in the order of the visit.
\<close>

function evaluatorRootsFrom :: "nat \<Rightarrow> nat \<Rightarrow> nat \<Rightarrow> nat list" where
  "evaluatorRootsFrom D functionDepth level =
     (if level < D \<and> 0 < functionDepth
      then [TreeNodes level ..< TreeNodes (level + 1)]
             @ evaluatorRootsFrom D functionDepth (level + functionDepth)
      else [])"
  by pat_completeness auto
termination
  by (relation "measure (\<lambda>(d, f, l). d - l)") auto

text \<open>
  The leaves of the subtree of \<open>r\<close> levels below a node in the recursive true-first,
  false-second order, and the leaf descriptors of that order: each descriptor maps the
  nodes on the path to its leaf to the branch taken. Within one subtree switch the bit
  offsets number the nodes as the indices number the nodes of a tree with root 0, so
  that the same functions serve for bit offsets.
\<close>

fun subtreeLeavesTrueFirst :: "nat \<Rightarrow> nat \<Rightarrow> nat list" where
  "subtreeLeavesTrueFirst n 0 = [n]"
| "subtreeLeavesTrueFirst n (Suc r) =
     subtreeLeavesTrueFirst (2 * n + 2) r @ subtreeLeavesTrueFirst (2 * n + 1) r"

definition markPath :: "nat \<Rightarrow> bool \<Rightarrow> LeafNodePathBitsMap_t \<Rightarrow> LeafNodePathBitsMap_t" where
  "markPath b v d = (fst d, AList.update b v (snd d))"

fun leafPaths :: "nat \<Rightarrow> nat \<Rightarrow> LeafNodePathBitsMap_t list" where
  "leafPaths b 0 = [(b, [])]"
| "leafPaths b (Suc r) =
     map (markPath b True) (leafPaths (2 * b + 2) r)
     @ map (markPath b False) (leafPaths (2 * b + 1) r)"

text \<open>
  A condition vector, read as the outcome of every node, agrees with a descriptor when
  it has the required value at every bit of the descriptor. The walk takes the true
  child \<open>2b+2\<close> or the false child \<open>2b+1\<close> at every node, by the outcome of the
  node.
\<close>

definition path_matches :: "(nat \<Rightarrow> bool) \<Rightarrow> PathBitsMap_t \<Rightarrow> bool" where
  "path_matches c m = list_all (\<lambda>e. c (fst e) = snd e) m"

fun walk :: "(nat \<Rightarrow> bool) \<Rightarrow> nat \<Rightarrow> nat \<Rightarrow> nat" where
  "walk c b 0 = b"
| "walk c b (Suc r) = walk c (if c b then 2 * b + 2 else 2 * b + 1) r"

text \<open>
  A node is an ancestor of another when the other lies on some level below it in its
  subtree.
\<close>

definition ancestor :: "nat \<Rightarrow> nat \<Rightarrow> bool" where
  "ancestor a n = (\<exists>l. 0 < l \<and> n \<in> set (subtreeLevel a l))"

text \<open>
  The variant enumerator applied to one leaf descriptor, as the loop of
  \<^verbatim>\<open>emitSubtreeSwitchesRecursively\<close> applies it: the fixed template first, then its
  variants, into an empty vector. The variable bits of a descriptor (section 4.3 of the
  specification) are the bits of the condition vector outside the descriptor's map.
\<close>

definition conditionVectorVariants :: "nat \<Rightarrow> PathBitsMap_t \<Rightarrow> error + 32 word list" where
  "conditionVectorVariants numNodes pathBitsMap =
     (case buildFixedConditionVectorTemplate pathBitsMap of
        Inl e \<Rightarrow> Inl e
      | Inr conditionVectorTemplate \<Rightarrow>
          buildCanonicalConditionVectorVariants numNodes conditionVectorTemplate pathBitsMap [])"

definition variableBits :: "nat \<Rightarrow> PathBitsMap_t \<Rightarrow> nat set" where
  "variableBits numNodes pathBitsMap = {i. i < numNodes \<and> i \<notin> fst ` set pathBitsMap}"

text \<open>
  The switch case that one pass of the loop of \<^verbatim>\<open>emitSubtreeSwitchesRecursively\<close> adds
  for a leaf descriptor when nothing in the pass fails: the case constants made from the
  descriptor's variants, and the block the cases jump to.
\<close>

definition switchCase :: "DecisionTree_t \<Rightarrow> nat \<Rightarrow> nat \<Rightarrow> nat \<Rightarrow> LeafNodePathBitsMap_t
    \<Rightarrow> const_int list \<times> eval_ir" where
  "switchCase tree switchLevels nestedSwitches numNodes d =
     (map (\<lambda>v. ConstantInt_get (numNodes + 1) (unat v)) (projr (conditionVectorVariants numNodes (snd d))),
      if nestedSwitches > 0
      then projr (emitSubtreeSwitchesRecursively tree (fst d) switchLevels (nestedSwitches - 1))
      else StoreConstant (ConstantInt returnTy (fst d)))"

section \<open>Example trees\<close>

text \<open>
  Perfect trees of depth 1, 2 and 6.
\<close>

definition example_tree1 :: DecisionTree_t where
  "example_tree1 =
     [(0, \<lparr>Bias = Finite (1 / 2), Op = Bypass, Comp = LessThan, DataSetFeatureIdx = 0,
           TrueChildNodeIdx = 2, FalseChildNodeIdx = 1\<rparr>)]"

definition example_tree2 :: DecisionTree_t where
  "example_tree2 =
     [(0, \<lparr>Bias = Finite (1 / 2), Op = Bypass, Comp = LessThan, DataSetFeatureIdx = 0,
           TrueChildNodeIdx = 2, FalseChildNodeIdx = 1\<rparr>),
      (1, \<lparr>Bias = Finite (1 / 2), Op = Bypass, Comp = GreaterThan, DataSetFeatureIdx = 1,
           TrueChildNodeIdx = 4, FalseChildNodeIdx = 3\<rparr>),
      (2, \<lparr>Bias = Finite (1 / 2), Op = Sqrt, Comp = LessThan, DataSetFeatureIdx = 2,
           TrueChildNodeIdx = 6, FalseChildNodeIdx = 5\<rparr>)]"

definition example_tree6 :: DecisionTree_t where
  "example_tree6 =
     map (\<lambda>i. (i, \<lparr>Bias = Finite (1 / 2), Op = Bypass, Comp = LessThan, DataSetFeatureIdx = 0,
                    TrueChildNodeIdx = 2 * i + 2, FalseChildNodeIdx = 2 * i + 1\<rparr>)) [0..<63]"

definition example_intrinsics :: Intrinsics where
  "example_intrinsics = \<lparr>llvm_sqrt = (\<lambda>v. v), llvm_log = (\<lambda>v. v)\<rparr>"

section \<open>Levels and index arithmetic\<close>

declare Log2.simps [simp del]

lemma Log2_bounds: "0 < n \<Longrightarrow> 2 ^ Log2 n \<le> n \<and> n < 2 ^ Suc (Log2 n)"
proof (induction n rule: Log2.induct)
  case (1 n)
  show ?case
  proof (cases "n < 2")
    case True
    with 1 have "n = 1" by simp
    then show ?thesis by (simp add: Log2.simps)
  next
    case False
    then have pos: "0 < n div 2" by simp
    from 1(1)[OF False pos] have lo: "2 ^ Log2 (n div 2) \<le> n div 2"
      and hi: "n div 2 < 2 ^ Suc (Log2 (n div 2))" by simp_all
    have eq: "Log2 n = Suc (Log2 (n div 2))" using False by (subst Log2.simps) simp
    from lo have "2 * 2 ^ Log2 (n div 2) \<le> n" by linarith
    moreover from hi have "n < 2 * 2 ^ Suc (Log2 (n div 2))" by linarith
    ultimately show ?thesis by (simp add: eq)
  qed
qed

lemma Log2_unique:
  assumes "2 ^ l \<le> n" and "n < 2 ^ Suc l"
  shows "Log2 n = l"
proof -
  have pos: "0 < n" using assms(1) by (metis less_le_trans zero_less_numeral zero_less_power)
  from Log2_bounds[OF pos] have lo: "2 ^ Log2 n \<le> n" and hi: "n < 2 ^ Suc (Log2 n)" by simp_all
  have "(2::nat) ^ l < 2 ^ Suc (Log2 n)" using assms(1) hi by linarith
  then have a: "l < Suc (Log2 n)" by (simp only: power_strict_increasing_iff[of "2::nat"] one_less_numeral_iff semiring_norm)
  have "(2::nat) ^ Log2 n < 2 ^ Suc l" using assms(2) lo by linarith
  then have b: "Log2 n < Suc l" by (simp only: power_strict_increasing_iff[of "2::nat"] one_less_numeral_iff semiring_norm)
  from a b show ?thesis by simp
qed

lemma Log2_floor_log: "0 < n \<Longrightarrow> Log2 n = nat \<lfloor>log 2 (real n)\<rfloor>"
proof -
  assume pos: "0 < n"
  from Log2_bounds[OF pos] have lo: "2 ^ Log2 n \<le> n" and hi: "n < 2 ^ Suc (Log2 n)" by simp_all
  have "\<lfloor>log 2 (real n)\<rfloor> = int (Log2 n)"
  proof (rule floor_unique)
    have "real (2 ^ Log2 n) \<le> real n" using lo by (simp only: of_nat_le_iff)
    then have "2 powr real (Log2 n) \<le> real n" by (simp add: powr_realpow)
    then show "of_int (int (Log2 n)) \<le> log 2 (real n)"
      using pos by (simp add: le_log_iff)
    have "real n < real (2 ^ Suc (Log2 n))" using hi by (simp only: of_nat_less_iff)
    then have "real n < 2 powr (real (Log2 n) + 1)" by (simp add: powr_realpow powr_add)
    then show "log 2 (real n) < of_int (int (Log2 n)) + 1"
      using pos by (simp add: log_less_iff)
  qed
  then show ?thesis by simp
qed

lemma subtreeLevel_eq: "subtreeLevel R l = [(R + 1) * 2 ^ l - 1 ..< (R + 2) * 2 ^ l - 1]"
proof (induction l)
  case 0
  have "[R ..< Suc R] = [R]" by (simp add: upt_rec)
  then show ?case by simp
next
  case (Suc l)
  have gen: "concat (map (\<lambda>i. [2 * i + 1, 2 * i + 2]) [a ..< a + n]) = [2 * a + 1 ..< 2 * a + 1 + 2 * n]" for a n :: nat
  proof (induction n)
    case 0 show ?case by simp
  next
    case (Suc n)
    have "[a ..< a + Suc n] = [a ..< a + n] @ [a + n]" by simp
    moreover have "[2 * a + 1 ..< 2 * a + 1 + 2 * Suc n] = [2 * a + 1 ..< 2 * a + 1 + 2 * n] @ [2 * (a + n) + 1, 2 * (a + n) + 2]"
      by (simp add: upt_rec[of "2 * a + 1 + 2 * n"] upt_rec[of "Suc (2 * a + 1 + 2 * n)"] flip: upt_add_eq_append)
    ultimately show ?case using Suc by simp
  qed
  define x where "x = (R + 1) * 2 ^ l"
  define p where "p = (2::nat) ^ l"
  have pos: "1 \<le> p" "p \<le> x" by (simp_all add: p_def x_def)
  have e1: "(R + 2) * 2 ^ l = x + p" by (simp add: x_def p_def algebra_simps)
  have e2: "(R + 1) * 2 ^ Suc l = 2 * x" by (simp add: x_def)
  have e3: "(R + 2) * 2 ^ Suc l = 2 * x + 2 * p" by (simp add: x_def p_def algebra_simps)
  have len: "(R + 2) * 2 ^ l - 1 = ((R + 1) * 2 ^ l - 1) + 2 ^ l"
    unfolding e1 unfolding x_def[symmetric] unfolding p_def[symmetric] using pos by linarith
  have a: "2 * ((R + 1) * 2 ^ l - 1) + 1 = (R + 1) * 2 ^ Suc l - 1"
    unfolding e2 unfolding x_def[symmetric] using pos by linarith
  have b: "(R + 1) * 2 ^ Suc l - 1 + 2 * 2 ^ l = (R + 2) * 2 ^ Suc l - 1"
    unfolding e2 e3 unfolding p_def[symmetric] using pos by linarith
  show ?case
    unfolding subtreeLevel.simps Suc.IH len gen a b ..
qed

lemma Log2_double: "Log2 (2 * b + 2) = Suc (Log2 (b + 1))" "Log2 (2 * b + 3) = Suc (Log2 (b + 1))"
proof -
  have "(2 * b + 2) div 2 = b + 1" by simp
  then show "Log2 (2 * b + 2) = Suc (Log2 (b + 1))" by (subst Log2.simps) simp
  have "(2 * b + 3) div 2 = b + 1" by simp
  then show "Log2 (2 * b + 3) = Suc (Log2 (b + 1))" by (subst Log2.simps) simp
qed

lemma Log2_1: "Log2 1 = 0" "Log2 (Suc 0) = 0"
  by (simp_all add: Log2.simps)

lemma Log2_lt_iff: "0 < n \<Longrightarrow> Log2 n < k \<longleftrightarrow> n < 2 ^ k"
proof
  assume pos: "0 < n" and "Log2 n < k"
  then have "Suc (Log2 n) \<le> k" by simp
  then have "(2::nat) ^ Suc (Log2 n) \<le> 2 ^ k" by (rule power_increasing) simp
  with Log2_bounds[OF pos] show "n < 2 ^ k" by linarith
next
  assume pos: "0 < n" and "n < 2 ^ k"
  with Log2_bounds[OF pos] have "(2::nat) ^ Log2 n < 2 ^ k" by linarith
  then show "Log2 n < k"
    by (simp only: power_strict_increasing_iff[of "2::nat"] one_less_numeral_iff semiring_norm)
qed

lemma getNodeIdx_closed:
  "getNodeIdxForSubtreeBitOffset R k b + 1 =
     (R + 1) * 2 ^ Log2 (b + 1) + (b + 1 - 2 ^ Log2 (b + 1))"
proof -
  define q where "q = (2::nat) ^ Log2 (R + 1)"
  define p where "p = (2::nat) ^ Log2 (b + 1)"
  have q: "1 \<le> q" "q \<le> R + 1" using Log2_bounds[of "R + 1"] by (simp_all add: q_def)
  have p: "1 \<le> p" "p \<le> b + 1" using Log2_bounds[of "b + 1"] by (simp_all add: p_def)
  obtain d where d: "R + 1 = q + d" using q(2) le_iff_add by blast
  obtain e where e: "b + 1 = p + e" using p(2) le_iff_add by blast
  have d': "R - (q - 1) = d" using d q(1) by linarith
  have e': "b - (p - 1) = e" using e p(1) by linarith
  have qp: "1 \<le> q * p" using q(1) p(1) by (simp add: Suc_leI)
  have "getNodeIdxForSubtreeBitOffset R k b = (q * p - 1) + (R - (q - 1)) * p + (b - (p - 1))"
    unfolding getNodeIdxForSubtreeBitOffset_def Let_def TreeNodes_def PowerOf2_def power_add
      q_def p_def by (rule refl)
  then have "getNodeIdxForSubtreeBitOffset R k b = (q * p - 1) + d * p + e"
    unfolding d' e' .
  also have "\<dots> + 1 = (q + d) * p + e" using qp by (simp add: algebra_simps)
  finally have "getNodeIdxForSubtreeBitOffset R k b + 1 = (q + d) * p + e" .
  moreover have "b + 1 - p = e" using e by simp
  ultimately show ?thesis unfolding p_def[symmetric] using d by simp
qed

lemma getNodeIdx_root: "getNodeIdxForSubtreeBitOffset R k 0 = R"
  using getNodeIdx_closed[of R k 0] by (simp add: Log2_1)

lemma getNodeIdx_false_child:
  "getNodeIdxForSubtreeBitOffset R k (2 * b + 1) = 2 * getNodeIdxForSubtreeBitOffset R k b + 1"
proof -
  define p where "p = (2::nat) ^ Log2 (b + 1)"
  have p: "p \<le> b + 1" using Log2_bounds[of "b + 1"] by (simp add: p_def)
  have l: "Log2 (2 * b + 1 + 1) = Suc (Log2 (b + 1))" using Log2_double(1)[of b] by simp
  have "getNodeIdxForSubtreeBitOffset R k (2 * b + 1) + 1 = (R + 1) * (2 * p) + (2 * b + 2 - 2 * p)"
    using getNodeIdx_closed[of R k "2 * b + 1"] unfolding l by (simp add: p_def)
  moreover have "getNodeIdxForSubtreeBitOffset R k b + 1 = (R + 1) * p + (b + 1 - p)"
    using getNodeIdx_closed[of R k b] by (simp add: p_def)
  moreover have "(R + 1) * (2 * p) + (2 * b + 2 - 2 * p) = 2 * ((R + 1) * p + (b + 1 - p))"
    using p by (simp add: algebra_simps)
  ultimately show ?thesis by linarith
qed

lemma getNodeIdx_true_child:
  "getNodeIdxForSubtreeBitOffset R k (2 * b + 2) = 2 * getNodeIdxForSubtreeBitOffset R k b + 2"
proof -
  define p where "p = (2::nat) ^ Log2 (b + 1)"
  have p: "p \<le> b + 1" using Log2_bounds[of "b + 1"] by (simp add: p_def)
  have l: "Log2 (2 * b + 2 + 1) = Suc (Log2 (b + 1))" using Log2_double(2)[of b] by (simp add: numeral_3_eq_3)
  have "getNodeIdxForSubtreeBitOffset R k (2 * b + 2) + 1 = (R + 1) * (2 * p) + (2 * b + 3 - 2 * p)"
    using getNodeIdx_closed[of R k "2 * b + 2"] unfolding l by (simp add: p_def)
  moreover have "getNodeIdxForSubtreeBitOffset R k b + 1 = (R + 1) * p + (b + 1 - p)"
    using getNodeIdx_closed[of R k b] by (simp add: p_def)
  moreover have "(R + 1) * (2 * p) + (2 * b + 3 - 2 * p) = 2 * ((R + 1) * p + (b + 1 - p)) + 1"
    using p by (simp add: algebra_simps)
  ultimately have "getNodeIdxForSubtreeBitOffset R k (2 * b + 2) + 1
      = 2 * (getNodeIdxForSubtreeBitOffset R k b + 1) + 1" by simp
  then show ?thesis by simp
qed

lemma getNodeIdx_level:
  "Log2 (getNodeIdxForSubtreeBitOffset R k b + 1) = Log2 (R + 1) + Log2 (b + 1)"
proof (rule Log2_unique)
  define q where "q = (2::nat) ^ Log2 (R + 1)"
  define p where "p = (2::nat) ^ Log2 (b + 1)"
  have q: "q \<le> R + 1" "R + 1 < 2 * q" using Log2_bounds[of "R + 1"] by (simp_all add: q_def)
  have p: "p \<le> b + 1" "b + 1 < 2 * p" using Log2_bounds[of "b + 1"] by (simp_all add: p_def)
  have g: "getNodeIdxForSubtreeBitOffset R k b + 1 = (R + 1) * p + (b + 1 - p)"
    using getNodeIdx_closed[of R k b] by (simp add: p_def)
  have "q * p \<le> (R + 1) * p" using q(1) by (rule mult_le_mono1)
  then show "2 ^ (Log2 (R + 1) + Log2 (b + 1)) \<le> getNodeIdxForSubtreeBitOffset R k b + 1"
    unfolding g by (simp add: power_add q_def p_def)
  have "R + 2 \<le> 2 * q" using q(2) by simp
  then have "(R + 2) * p \<le> 2 * q * p" by (rule mult_le_mono1)
  moreover have "(R + 1) * p + (b + 1 - p) < (R + 2) * p" using p by (simp add: algebra_simps)
  ultimately show "getNodeIdxForSubtreeBitOffset R k b + 1 < 2 ^ Suc (Log2 (R + 1) + Log2 (b + 1))"
    unfolding g by (simp add: power_add q_def p_def)
qed

lemma getNodeIdx_inj:
  assumes "getNodeIdxForSubtreeBitOffset R k b = getNodeIdxForSubtreeBitOffset R k' b'"
  shows "b = b'"
proof -
  have l: "Log2 (b + 1) = Log2 (b' + 1)"
    using getNodeIdx_level[of R k b] getNodeIdx_level[of R k' b'] assms by simp
  have "b + 1 - 2 ^ Log2 (b + 1) = b' + 1 - 2 ^ Log2 (b + 1)"
    using getNodeIdx_closed[of R k b] getNodeIdx_closed[of R k' b'] assms l by simp
  moreover have "2 ^ Log2 (b + 1) \<le> b + 1" using Log2_bounds[of "b + 1"] by simp
  moreover have "2 ^ Log2 (b + 1) \<le> b' + 1" using Log2_bounds[of "b' + 1"] l by simp
  ultimately show ?thesis by linarith
qed

lemma getNodeIdx_nth:
  "getNodeIdxForSubtreeBitOffset R k b =
     subtreeLevel R (Log2 (b + 1)) ! (b + 1 - 2 ^ Log2 (b + 1))"
  and getNodeIdx_in_level:
  "getNodeIdxForSubtreeBitOffset R k b \<in> set (subtreeLevel R (Log2 (b + 1)))"
proof -
  define p where "p = (2::nat) ^ Log2 (b + 1)"
  have p: "1 \<le> p" "p \<le> b + 1" "b + 1 < 2 * p" using Log2_bounds[of "b + 1"] by (simp_all add: p_def)
  have g: "getNodeIdxForSubtreeBitOffset R k b + 1 = (R + 1) * p + (b + 1 - p)"
    using getNodeIdx_closed[of R k b] by (simp add: p_def)
  have x: "1 \<le> (R + 1) * p" using p(1) by (simp add: Suc_leI)
  have e: "(R + 2) * p = (R + 1) * p + p" by (simp add: algebra_simps)
  have lt: "(R + 1) * p - 1 + (b + 1 - p) < (R + 2) * p - 1" unfolding e using p x by linarith
  have "[(R + 1) * p - 1 ..< (R + 2) * p - 1] ! (b + 1 - p) = (R + 1) * p - 1 + (b + 1 - p)"
    using lt by (rule nth_upt)
  also have "\<dots> = getNodeIdxForSubtreeBitOffset R k b" using g x by linarith
  finally show "getNodeIdxForSubtreeBitOffset R k b =
     subtreeLevel R (Log2 (b + 1)) ! (b + 1 - 2 ^ Log2 (b + 1))"
    by (simp add: subtreeLevel_eq p_def)
  have "(R + 1) * p - 1 \<le> getNodeIdxForSubtreeBitOffset R k b" using g x by linarith
  moreover have "getNodeIdxForSubtreeBitOffset R k b < (R + 2) * p - 1" using g x lt by linarith
  ultimately show "getNodeIdxForSubtreeBitOffset R k b \<in> set (subtreeLevel R (Log2 (b + 1)))"
    by (simp add: subtreeLevel_eq p_def)
qed

lemma bitOffset_level: "b < 2 ^ k - 1 \<Longrightarrow> Log2 (b + 1) < k"
  by (subst Log2_lt_iff) simp_all

lemma subtreeLevel_level:
  assumes "j \<in> set (subtreeLevel i l)"
  shows "Log2 (j + 1) = Log2 (i + 1) + l"
proof (rule Log2_unique)
  define q where "q = (2::nat) ^ Log2 (i + 1)"
  define p where "p = (2::nat) ^ l"
  have q: "q \<le> i + 1" "i + 1 < 2 * q" using Log2_bounds[of "i + 1"] by (simp_all add: q_def)
  have p: "1 \<le> p" by (simp add: p_def)
  have x: "1 \<le> (i + 1) * p" using p by (simp add: Suc_leI)
  have j: "(i + 1) * p - 1 \<le> j" "j < (i + 2) * p - 1"
    using assms by (simp_all add: subtreeLevel_eq p_def)
  have "q * p \<le> (i + 1) * p" using q(1) by (rule mult_le_mono1)
  then show "2 ^ (Log2 (i + 1) + l) \<le> j + 1"
    using j(1) x by (simp add: power_add q_def p_def)
  have "i + 2 \<le> 2 * q" using q(2) by simp
  then have "(i + 2) * p \<le> 2 * q * p" by (rule mult_le_mono1)
  then show "j + 1 < 2 ^ Suc (Log2 (i + 1) + l)"
    using j(2) by (simp add: power_add q_def p_def)
qed

lemma getNodeIdx_image: "getNodeIdxForSubtreeBitOffset R k ` {..<2 ^ k - 1} = subtreeNodes R k"
proof (intro equalityI subsetI)
  fix n assume "n \<in> getNodeIdxForSubtreeBitOffset R k ` {..<2 ^ k - 1}"
  then obtain b where b: "b < 2 ^ k - 1" "n = getNodeIdxForSubtreeBitOffset R k b" by auto
  show "n \<in> subtreeNodes R k"
    unfolding subtreeNodes_def using bitOffset_level[OF b(1)] getNodeIdx_in_level[of R k b] b(2)
    by auto
next
  fix n assume "n \<in> subtreeNodes R k"
  then obtain l where l: "l < k" "n \<in> set (subtreeLevel R l)" by (auto simp: subtreeNodes_def)
  define p where "p = (2::nat) ^ l"
  have p: "1 \<le> p" by (simp add: p_def)
  have x: "1 \<le> (R + 1) * p" using p by (simp add: Suc_leI)
  have e: "(R + 2) * p = (R + 1) * p + p" by (simp add: algebra_simps)
  have n: "(R + 1) * p - 1 \<le> n" "n < (R + 2) * p - 1"
    using l(2) by (simp_all add: subtreeLevel_eq p_def)
  define b where "b = p - 1 + (n - ((R + 1) * p - 1))"
  have b1: "p \<le> b + 1" "b + 1 < 2 * p" using n p x unfolding b_def e by linarith+
  have lb: "Log2 (b + 1) = l" by (rule Log2_unique) (use b1 in \<open>simp_all add: p_def\<close>)
  have "Suc l \<le> k" using l(1) by simp
  then have "(2::nat) ^ Suc l \<le> 2 ^ k" by (rule power_increasing) simp
  then have bk: "b < 2 ^ k - 1" using b1(2) by (simp add: p_def)
  have "getNodeIdxForSubtreeBitOffset R k b + 1 = (R + 1) * p + (b + 1 - p)"
    using getNodeIdx_closed[of R k b] unfolding lb p_def .
  then have "getNodeIdxForSubtreeBitOffset R k b = n" using n p x unfolding b_def e by linarith
  with bk show "n \<in> getNodeIdxForSubtreeBitOffset R k ` {..<2 ^ k - 1}" by auto
qed

section \<open>Claim C4: index arithmetic\<close>

text \<open>
  Claim C4. For a subtree of \<open>k\<close> levels rooted at the global index \<open>R\<close>,
  \<^const>\<open>getNodeIdxForSubtreeBitOffset\<close> computes the formula of section 4.1 of the
  specification, read over the integers with the floor of the real binary logarithm:
  with \<open>l = floor (log2 (bitOffset + 1))\<close> and \<open>L = floor (log2 (R + 1))\<close> the result is
  \<open>(2^(L+l) - 1) + (R - (2^L - 1)) * 2^l + (bitOffset - (2^l - 1))\<close>. Over the bit
  offsets \<open>0 .. 2^k - 2\<close> the function is injective, so that it yields \<open>2^k - 1\<close>
  distinct indices, and each of them is a node of the first \<open>k\<close> levels of the
  subtree rooted at \<open>R\<close>.
\<close>

theorem getNodeIdxForSubtreeBitOffset_spec:
  assumes "bitOffset < 2 ^ k - 1"
  shows "int (getNodeIdxForSubtreeBitOffset R k bitOffset) =
           (2 ^ (nat \<lfloor>log 2 (real (R + 1))\<rfloor> + nat \<lfloor>log 2 (real (bitOffset + 1))\<rfloor>) - 1)
           + (int R - (2 ^ nat \<lfloor>log 2 (real (R + 1))\<rfloor> - 1)) * 2 ^ nat \<lfloor>log 2 (real (bitOffset + 1))\<rfloor>
           + (int bitOffset - (2 ^ nat \<lfloor>log 2 (real (bitOffset + 1))\<rfloor> - 1))
         \<and> getNodeIdxForSubtreeBitOffset R k bitOffset \<in> subtreeNodes R k
         \<and> inj_on (getNodeIdxForSubtreeBitOffset R k) {..<2 ^ k - 1}
         \<and> card (getNodeIdxForSubtreeBitOffset R k ` {..<2 ^ k - 1}) = 2 ^ k - 1"
proof -
  define l where "l = Log2 (bitOffset + 1)"
  define L where "L = Log2 (R + 1)"
  have fl: "nat \<lfloor>log 2 (real (bitOffset + 1))\<rfloor> = l" "nat \<lfloor>log 2 (real (R + 1))\<rfloor> = L"
    using Log2_floor_log[of "bitOffset + 1"] Log2_floor_log[of "R + 1"] by (simp_all add: l_def L_def)
  have p: "2 ^ l \<le> bitOffset + 1" using Log2_bounds[of "bitOffset + 1"] by (simp add: l_def)
  have "int (getNodeIdxForSubtreeBitOffset R k bitOffset) + 1
      = int (getNodeIdxForSubtreeBitOffset R k bitOffset + 1)" by simp
  also have "\<dots> = int ((R + 1) * 2 ^ l + (bitOffset + 1 - 2 ^ l))"
    unfolding l_def getNodeIdx_closed ..
  also have "\<dots> = (int R + 1) * 2 ^ l + (int bitOffset + 1 - 2 ^ l)"
    using p by (simp add: of_nat_diff algebra_simps)
  finally have "int (getNodeIdxForSubtreeBitOffset R k bitOffset)
      = (int R + 1) * 2 ^ l + (int bitOffset + 1 - 2 ^ l) - 1" by simp
  also have "\<dots> = (2 ^ (L + l) - 1) + (int R - (2 ^ L - 1)) * 2 ^ l + (int bitOffset - (2 ^ l - 1))"
    by (simp add: algebra_simps power_add)
  finally have formula: "int (getNodeIdxForSubtreeBitOffset R k bitOffset) =
           (2 ^ (nat \<lfloor>log 2 (real (R + 1))\<rfloor> + nat \<lfloor>log 2 (real (bitOffset + 1))\<rfloor>) - 1)
           + (int R - (2 ^ nat \<lfloor>log 2 (real (R + 1))\<rfloor> - 1)) * 2 ^ nat \<lfloor>log 2 (real (bitOffset + 1))\<rfloor>
           + (int bitOffset - (2 ^ nat \<lfloor>log 2 (real (bitOffset + 1))\<rfloor> - 1))"
    unfolding fl .
  have mem: "getNodeIdxForSubtreeBitOffset R k bitOffset \<in> subtreeNodes R k"
    using assms getNodeIdx_image[of R k] by blast
  have inj: "inj_on (getNodeIdxForSubtreeBitOffset R k) {..<2 ^ k - 1}"
    by (rule inj_onI) (rule getNodeIdx_inj)
  have "card (getNodeIdxForSubtreeBitOffset R k ` {..<2 ^ k - 1}) = 2 ^ k - 1"
    using card_image[OF inj] by simp
  with formula mem inj show ?thesis by blast
qed

theorem getNodeIdxForSubtreeBitOffset_spec_witness:
  "(1::nat) < 2 ^ 2 - 1 \<and> getNodeIdxForSubtreeBitOffset 2 2 1 = 5 \<and> 5 \<in> subtreeNodes 2 2
   \<and> card (getNodeIdxForSubtreeBitOffset 2 2 ` {..<2 ^ 2 - 1}) = 3"
proof -
  have h: "(1::nat) < 2 ^ 2 - 1" by simp
  have v: "getNodeIdxForSubtreeBitOffset 2 2 1 = 5"
    by (simp add: getNodeIdxForSubtreeBitOffset_def Let_def TreeNodes_def PowerOf2_def Log2.simps)
  from getNodeIdxForSubtreeBitOffset_spec[OF h, of 2]
  have m: "getNodeIdxForSubtreeBitOffset 2 2 1 \<in> subtreeNodes 2 2"
    and c: "card (getNodeIdxForSubtreeBitOffset 2 2 ` {..<2 ^ 2 - 1}) = 2 ^ 2 - 1" by blast+
  from m have "5 \<in> subtreeNodes 2 2" unfolding v .
  with h v c show ?thesis by simp
qed

section \<open>The loop of run\<close>

declare run_loop.simps [simp del] evaluatorRootsFrom.simps [simp del]

lemma internal_iff_level: "idx < 2 ^ D - 1 \<longleftrightarrow> Log2 (idx + 1) < D"
proof -
  have "Log2 (idx + 1) < D \<longleftrightarrow> idx + 1 < 2 ^ D" by (rule Log2_lt_iff) simp
  then show ?thesis by auto
qed

lemma leaf_range_level:
  assumes "Log2 (idx + 1) = D"
  shows "2 ^ D - 1 \<le> idx \<and> idx < 2 ^ D - 1 + 2 ^ D"
proof -
  have "2 ^ D \<le> idx + 1" "idx + 1 < 2 * 2 ^ D" using Log2_bounds[of "idx + 1"] assms by simp_all
  then show ?thesis by linarith
qed

lemma level_step_le:
  assumes "0 < (fD::nat)" "fD dvd D" "fD dvd l" "l < D"
  shows "l + fD \<le> D"
proof -
  obtain a where a: "l = fD * a" using assms(3) by (auto simp: dvd_def)
  obtain d where d: "D = fD * d" using assms(2) by (auto simp: dvd_def)
  have "a < d" using assms(1,4) unfolding a d by simp
  then have "Suc a \<le> d" by simp
  then have "fD * Suc a \<le> fD * d" by (rule mult_le_mono2)
  then show ?thesis unfolding a d by simp
qed

lemma map_at_Inr_iff: "map_at m k = Inr v \<longleftrightarrow> map_of m k = Some v"
  by (simp add: map_at_def split: option.splits)

lemma map_at_key:
  assumes "k \<in> set (map fst m)"
  shows "\<exists>v. map_at m k = Inr v \<and> (k, v) \<in> set m"
proof -
  from assms obtain v where "map_of m k = Some v"
    by (metis map_of_eq_None_iff not_Some_eq set_map)
  then show ?thesis by (auto simp: map_at_Inr_iff dest: map_of_SomeD)
qed

lemma evaluators_descend_entry:
  assumes "evaluators_descend evs fD data" "(i, f) \<in> set evs"
  shows "\<exists>idx1. f data = Some idx1 \<and> idx1 \<in> set (subtreeLevel i fD)"
  using assms unfolding evaluators_descend_def list_all_iff
  by (fastforce split: option.splits)

lemma run_loop_step:
  assumes "0 < fD" "fD dvd D" "set (map fst evs) = evaluatorRoots D fD"
    and "evaluators_descend evs fD data"
    and "fD dvd Log2 (idx + 1)" "Log2 (idx + 1) < D"
  shows "\<exists>f idx1. map_at evs idx = Inr f \<and> f data = Some idx1 \<and> idx1 \<in> set (subtreeLevel idx fD)
           \<and> fD dvd Log2 (idx1 + 1) \<and> Log2 (idx1 + 1) = Log2 (idx + 1) + fD \<and> Log2 (idx1 + 1) \<le> D"
proof -
  have "idx \<in> evaluatorRoots D fD"
    using assms(5,6) internal_iff_level[of idx D] by (simp add: evaluatorRoots_def)
  then have "idx \<in> set (map fst evs)" using assms(3) by simp
  from map_at_key[OF this] obtain f where f: "map_at evs idx = Inr f" "(idx, f) \<in> set evs" by blast
  from evaluators_descend_entry[OF assms(4) f(2)] obtain idx1
    where i1: "f data = Some idx1" "idx1 \<in> set (subtreeLevel idx fD)" by blast
  have l: "Log2 (idx1 + 1) = Log2 (idx + 1) + fD" by (rule subtreeLevel_level[OF i1(2)])
  have "fD dvd Log2 (idx1 + 1)" unfolding l using assms(5) by simp
  moreover have "Log2 (idx1 + 1) \<le> D" unfolding l by (rule level_step_le[OF assms(1,2,5,6)])
  ultimately show ?thesis using f(1) i1 l by blast
qed

lemma run_loop_terminates:
  assumes "0 < fD" "fD dvd D" "set (map fst evs) = evaluatorRoots D fD"
    and "evaluators_descend evs fD data"
    and "fD dvd Log2 (idx + 1)" "Log2 (idx + 1) \<le> D"
  shows "\<exists>j. run_loop evs (2 ^ D - 1) data idx = Some (Inr j) \<and> Log2 (j + 1) = D"
  using assms(5,6)
proof (induction "D - Log2 (idx + 1)" arbitrary: idx rule: less_induct)
  case less
  show ?case
  proof (cases "Log2 (idx + 1) < D")
    case False
    then have l: "Log2 (idx + 1) = D" using less.prems(2) by simp
    then have "\<not> idx < 2 ^ D - 1" using internal_iff_level[of idx D] by simp
    then have "run_loop evs (2 ^ D - 1) data idx = Some (Inr idx)"
      by (subst run_loop.simps) simp
    with l show ?thesis by blast
  next
    case True
    from run_loop_step[OF assms(1-4) less.prems(1) True] obtain f idx1 where
      s: "map_at evs idx = Inr f" "f data = Some idx1" "fD dvd Log2 (idx1 + 1)"
         "Log2 (idx1 + 1) = Log2 (idx + 1) + fD" "Log2 (idx1 + 1) \<le> D" by blast
    have "D - Log2 (idx1 + 1) < D - Log2 (idx + 1)" using s(4) True assms(1) by simp
    from less.hyps[OF this s(3) s(5)] obtain j where
      j: "run_loop evs (2 ^ D - 1) data idx1 = Some (Inr j)" "Log2 (j + 1) = D" by blast
    have "idx < 2 ^ D - 1" using True internal_iff_level[of idx D] by simp
    then have "run_loop evs (2 ^ D - 1) data idx = run_loop evs (2 ^ D - 1) data idx1"
      by (subst run_loop.simps) (simp add: s(1,2))
    with j show ?thesis by simp
  qed
qed

lemma reached_level:
  assumes "0 < fD" "fD dvd D" "set (map fst evs) = evaluatorRoots D fD"
    and "evaluators_descend evs fD data"
    and "reached evs (2 ^ D - 1) data idx"
  shows "fD dvd Log2 (idx + 1) \<and> Log2 (idx + 1) \<le> D"
  using assms(5)
proof (induction rule: reached.induct)
  case reached_start
  then show ?case by (simp add: Log2_1)
next
  case (reached_step idx f idx1)
  then have "Log2 (idx + 1) < D" using internal_iff_level[of idx D] by simp
  from run_loop_step[OF assms(1-4) _ this] reached_step show ?case by auto
qed

section \<open>The evaluator roots\<close>

declare compileEvaluators_nodes.simps [simp del] compileEvaluators_levels.simps [simp del]
  loadEvaluators_offsets.simps [simp del] loadEvaluators_levels.simps [simp del]
  getNumCompiledEvaluators_loop.simps [simp del]

lemma level_nodes: "set [TreeNodes l ..< TreeNodes (l + 1)] = {i. Log2 (i + 1) = l}"
proof (intro equalityI subsetI)
  fix i assume "i \<in> set [TreeNodes l ..< TreeNodes (l + 1)]"
  then have "2 ^ l - 1 \<le> i" "i < 2 ^ (l + 1) - 1" by (simp_all add: TreeNodes_def)
  then have "2 ^ l \<le> i + 1" "i + 1 < 2 ^ Suc l" by simp_all
  then have "Log2 (i + 1) = l" by (rule Log2_unique)
  then show "i \<in> {i. Log2 (i + 1) = l}" by simp
next
  fix i assume "i \<in> {i. Log2 (i + 1) = l}"
  then have "2 ^ l \<le> i + 1" "i + 1 < 2 * 2 ^ l" using Log2_bounds[of "i + 1"] by auto
  then have "2 ^ l - 1 \<le> i" "i < 2 * 2 ^ l - 1" by linarith+
  then show "i \<in> set [TreeNodes l ..< TreeNodes (l + 1)]" by (simp add: TreeNodes_def)
qed

lemma level_nodes_length: "length [TreeNodes l ..< TreeNodes (l + 1)] = 2 ^ l"
  by (simp add: TreeNodes_def)

lemma evaluatorRootsFrom_set:
  "0 < fD \<Longrightarrow> set (evaluatorRootsFrom D fD level) =
     {i. level \<le> Log2 (i + 1) \<and> Log2 (i + 1) < D \<and> fD dvd (Log2 (i + 1) - level)}"
proof (induction D fD level rule: evaluatorRootsFrom.induct)
  case (1 D fD level)
  show ?case
  proof (cases "level < D")
    case False
    then show ?thesis by (subst evaluatorRootsFrom.simps) auto
  next
    case True
    have IH: "set (evaluatorRootsFrom D fD (level + fD)) =
      {i. level + fD \<le> Log2 (i + 1) \<and> Log2 (i + 1) < D \<and> fD dvd (Log2 (i + 1) - (level + fD))}"
      using 1 True by simp
    have "evaluatorRootsFrom D fD level =
        [TreeNodes level ..< TreeNodes (level + 1)] @ evaluatorRootsFrom D fD (level + fD)"
      using True 1(2) by (subst evaluatorRootsFrom.simps) simp
    then have "set (evaluatorRootsFrom D fD level) =
        {i. Log2 (i + 1) = level} \<union> set (evaluatorRootsFrom D fD (level + fD))"
      by (simp only: set_append level_nodes)
    also have "\<dots> = {i. level \<le> Log2 (i + 1) \<and> Log2 (i + 1) < D \<and> fD dvd (Log2 (i + 1) - level)}"
    proof (intro equalityI subsetI)
      fix i assume "i \<in> {i. Log2 (i + 1) = level} \<union> set (evaluatorRootsFrom D fD (level + fD))"
      then consider "Log2 (i + 1) = level"
        | "level + fD \<le> Log2 (i + 1)" "Log2 (i + 1) < D" "fD dvd (Log2 (i + 1) - (level + fD))"
        unfolding IH by auto
      then show "i \<in> {i. level \<le> Log2 (i + 1) \<and> Log2 (i + 1) < D \<and> fD dvd (Log2 (i + 1) - level)}"
      proof cases
        case 1 then show ?thesis using True by simp
      next
        case 2
        have "Log2 (i + 1) - level = (Log2 (i + 1) - (level + fD)) + fD" using 2(1) by simp
        then have "fD dvd (Log2 (i + 1) - level)" using 2(3) by simp
        then show ?thesis using 2 by simp
      qed
    next
      fix i assume "i \<in> {i. level \<le> Log2 (i + 1) \<and> Log2 (i + 1) < D \<and> fD dvd (Log2 (i + 1) - level)}"
      then have i: "level \<le> Log2 (i + 1)" "Log2 (i + 1) < D" "fD dvd (Log2 (i + 1) - level)" by simp_all
      show "i \<in> {i. Log2 (i + 1) = level} \<union> set (evaluatorRootsFrom D fD (level + fD))"
      proof (cases "Log2 (i + 1) = level")
        case True then show ?thesis by simp
      next
        case False
        then have pos: "0 < Log2 (i + 1) - level" using i(1) by simp
        from i(3) obtain a where a: "Log2 (i + 1) - level = fD * a" by (auto simp: dvd_def)
        have "a \<noteq> 0" using pos a by (cases a) simp_all
        then obtain a' where a': "a = Suc a'" by (cases a) simp_all
        have ge: "level + fD \<le> Log2 (i + 1)" using a a' i(1) by simp
        have "Log2 (i + 1) - (level + fD) = fD * a'" using a a' i(1) by simp
        then have "fD dvd (Log2 (i + 1) - (level + fD))" by simp
        then show ?thesis unfolding IH using ge i(2) by simp
      qed
    qed
    finally show ?thesis .
  qed
qed

lemma evaluatorRootsFrom_roots:
  "0 < fD \<Longrightarrow> set (evaluatorRootsFrom D fD 0) = evaluatorRoots D fD"
  using internal_iff_level by (auto simp: evaluatorRootsFrom_set evaluatorRoots_def)

lemma evaluatorRootsFrom_distinct: "distinct (evaluatorRootsFrom D fD level)"
proof (induction D fD level rule: evaluatorRootsFrom.induct)
  case (1 D fD level)
  show ?case
  proof (cases "level < D \<and> 0 < fD")
    case False
    then show ?thesis by (subst evaluatorRootsFrom.simps) auto
  next
    case True
    have disj: "set [TreeNodes level ..< TreeNodes (level + 1)] \<inter> set (evaluatorRootsFrom D fD (level + fD)) = {}"
      unfolding level_nodes using True by (auto simp: evaluatorRootsFrom_set)
    have eq: "evaluatorRootsFrom D fD level =
        [TreeNodes level ..< TreeNodes (level + 1)] @ evaluatorRootsFrom D fD (level + fD)"
      using True by (subst evaluatorRootsFrom.simps) simp
    have "distinct (evaluatorRootsFrom D fD (level + fD))" using 1 True by simp
    then show ?thesis unfolding eq using disj by (simp only: distinct_append distinct_upt simp_thms)
  qed
qed

lemma evaluatorRootsFrom_length:
  assumes "0 < fD"
  shows "length (evaluatorRootsFrom (fD * n) fD (fD * m)) = (\<Sum>k = m..<n. 2 ^ (k * fD))"
proof (induction "n - m" arbitrary: m)
  case 0
  then have "\<not> fD * m < fD * n" by simp
  then show ?case using 0 by (subst evaluatorRootsFrom.simps) simp
next
  case (Suc d)
  then have lt: "m < n" by simp
  then have "fD * m < fD * n" using assms by simp
  then have "evaluatorRootsFrom (fD * n) fD (fD * m) =
      [TreeNodes (fD * m) ..< TreeNodes (fD * m + 1)] @ evaluatorRootsFrom (fD * n) fD (fD * m + fD)"
    using assms by (subst evaluatorRootsFrom.simps) simp
  then have "length (evaluatorRootsFrom (fD * n) fD (fD * m)) =
      2 ^ (fD * m) + length (evaluatorRootsFrom (fD * n) fD (fD * m + fD))"
    by (simp only: length_append level_nodes_length)
  also have "fD * m + fD = fD * Suc m" by simp
  finally have "length (evaluatorRootsFrom (fD * n) fD (fD * m)) =
      2 ^ (fD * m) + length (evaluatorRootsFrom (fD * n) fD (fD * Suc m))" .
  also have "length (evaluatorRootsFrom (fD * n) fD (fD * Suc m)) = (\<Sum>k = Suc m..<n. 2 ^ (k * fD))"
    using Suc(2) by (intro Suc(1)) simp
  finally show ?case using lt by (simp add: sum.atLeast_Suc_lessThan mult.commute)
qed

lemma getNumCompiledEvaluators_loop_sum:
  "i \<le> n \<Longrightarrow> getNumCompiledEvaluators_loop fD n i acc = acc + (\<Sum>k = i..<n. 2 ^ (fD * k))"
proof (induction "n - i" arbitrary: i acc)
  case 0
  then show ?case by (subst getNumCompiledEvaluators_loop.simps) simp
next
  case (Suc d)
  then have lt: "i < n" by simp
  have "getNumCompiledEvaluators_loop fD n i acc =
      getNumCompiledEvaluators_loop fD n (Suc i) (acc + PowerOf2 (fD * i))"
    using lt by (subst getNumCompiledEvaluators_loop.simps) simp
  also have "\<dots> = acc + PowerOf2 (fD * i) + (\<Sum>k = Suc i..<n. 2 ^ (fD * k))"
    using Suc(2) lt by (intro Suc(1)) simp_all
  finally show ?case using lt by (simp add: sum.atLeast_Suc_lessThan PowerOf2_def)
qed

lemma getNumCompiledEvaluators_dvd:
  assumes "0 < fD" "fD dvd D"
  shows "getNumCompiledEvaluators D fD = Inr (\<Sum>k<D div fD. 2 ^ (k * fD))"
proof -
  obtain n where n: "D = fD * n" using assms(2) by (auto simp: dvd_def)
  have "(fD * n + fD - 1) div fD = n"
  proof -
    obtain f where f: "fD = Suc f" using assms(1) by (cases fD) simp_all
    have e: "fD * n + fD - 1 = f + n * Suc f" unfolding f by simp
    have "(f + n * Suc f) div Suc f = n + f div Suc f"
      by (rule div_mult_self1) simp
    then show ?thesis unfolding e unfolding f by simp
  qed
  then show ?thesis
    using assms(1) unfolding n
    by (simp add: getNumCompiledEvaluators_def Let_def getNumCompiledEvaluators_loop_sum
        lessThan_atLeast0 mult.commute)
qed

section \<open>The loops of compileEvaluators\<close>

lemma compile_nodes_Inr:
  "compileEvaluators_nodes tree fD sD i n M P = Inr (M', P') \<Longrightarrow>
     M' = M @ map (\<lambda>j. (j, projr (emitSubtreeEvaluation tree j fD sD))) [i..<n]
   \<and> P' = rev [i..<n] @ P
   \<and> (\<forall>j. i \<le> j \<and> j < n \<longrightarrow> (\<exists>body. emitSubtreeEvaluation tree j fD sD = Inr body))"
proof (induction "n - i" arbitrary: i M P)
  case 0
  then have "\<not> i < n" by simp
  with 0(2) show ?case by (subst (asm) compileEvaluators_nodes.simps) auto
next
  case (Suc d)
  then have lt: "i < n" by simp
  from Suc(3) lt obtain node body where
    nb: "map_at tree i = Inr node" "emitSubtreeEvaluation tree i fD sD = Inr body"
    and rec: "compileEvaluators_nodes tree fD sD (Suc i) n (M @ [(i, body)]) (i # P) = Inr (M', P')"
    by (subst (asm) compileEvaluators_nodes.simps) (auto simp: Let_def split: sum.splits)
  have "d = n - Suc i" using Suc(2) by simp
  from Suc(1)[OF this rec] have
    IH: "M' = (M @ [(i, body)]) @ map (\<lambda>j. (j, projr (emitSubtreeEvaluation tree j fD sD))) [Suc i..<n]"
        "P' = rev [Suc i..<n] @ i # P"
        "\<forall>j. Suc i \<le> j \<and> j < n \<longrightarrow> (\<exists>body. emitSubtreeEvaluation tree j fD sD = Inr body)"
    by simp_all
  have upt: "[i..<n] = i # [Suc i..<n]" using lt by (rule upt_conv_Cons)
  have "\<forall>j. i \<le> j \<and> j < n \<longrightarrow> (\<exists>body. emitSubtreeEvaluation tree j fD sD = Inr body)"
  proof (intro allI impI)
    fix j assume j: "i \<le> j \<and> j < n"
    show "\<exists>body. emitSubtreeEvaluation tree j fD sD = Inr body"
    proof (cases "j = i")
      case True then show ?thesis using nb(2) by simp
    next
      case False then show ?thesis using IH(3) j by simp
    qed
  qed
  then show ?case unfolding upt using IH(1,2) nb(2) by simp
qed

lemma compile_nodes_success:
  assumes "\<forall>j. i \<le> j \<and> j < n \<longrightarrow>
      (\<exists>node. map_at tree j = Inr node) \<and> (\<exists>body. emitSubtreeEvaluation tree j fD sD = Inr body)"
  shows "\<exists>M' P'. compileEvaluators_nodes tree fD sD i n M P = Inr (M', P')"
  using assms
proof (induction "n - i" arbitrary: i M P)
  case 0
  then have "\<not> i < n" by simp
  then show ?case by (subst compileEvaluators_nodes.simps) simp
next
  case (Suc d)
  then have lt: "i < n" by simp
  from Suc(3) lt obtain node body where
    nb: "map_at tree i = Inr node" "emitSubtreeEvaluation tree i fD sD = Inr body" by force
  have d: "d = n - Suc i" using Suc(2) by simp
  have "\<forall>j. Suc i \<le> j \<and> j < n \<longrightarrow>
      (\<exists>node. map_at tree j = Inr node) \<and> (\<exists>body. emitSubtreeEvaluation tree j fD sD = Inr body)"
    using Suc(3) by simp
  from Suc(1)[OF d this, of "M @ [(i, body)]" "i # P"] show ?case
    using lt nb by (subst compileEvaluators_nodes.simps) (simp add: Let_def)
qed

lemma compile_levels_Inr:
  "compileEvaluators_levels tree D fD sD level M P = Inr (M', P') \<Longrightarrow>
     M' = M @ map (\<lambda>j. (j, projr (emitSubtreeEvaluation tree j fD sD))) (evaluatorRootsFrom D fD level)
   \<and> P' = rev (evaluatorRootsFrom D fD level) @ P
   \<and> (\<forall>j \<in> set (evaluatorRootsFrom D fD level). \<exists>body. emitSubtreeEvaluation tree j fD sD = Inr body)"
proof (induction D fD level arbitrary: M P rule: evaluatorRootsFrom.induct)
  case (1 D fD level)
  show ?case
  proof (cases "level < D \<and> 0 < fD")
    case False
    have "evaluatorRootsFrom D fD level = []"
      by (subst evaluatorRootsFrom.simps) (simp only: False if_False)
    moreover have "compileEvaluators_levels tree D fD sD level M P = Inr (M, P)"
      by (subst compileEvaluators_levels.simps) (simp only: False if_False)
    then have "M' = M \<and> P' = P" using 1(2) by simp
    ultimately show ?thesis by simp
  next
    case True
    from 1(2) True obtain M1 P1 where
      nodes: "compileEvaluators_nodes tree fD sD (TreeNodes level) (TreeNodes (level + 1)) M P = Inr (M1, P1)"
      and rec: "compileEvaluators_levels tree D fD sD (level + fD) M1 P1 = Inr (M', P')"
      by (subst (asm) compileEvaluators_levels.simps) (auto simp: Let_def split: sum.splits)
    note n = compile_nodes_Inr[OF nodes]
    note r = 1(1)[OF True rec]
    have eq: "evaluatorRootsFrom D fD level =
        [TreeNodes level ..< TreeNodes (level + 1)] @ evaluatorRootsFrom D fD (level + fD)"
      using True by (subst evaluatorRootsFrom.simps) simp
    have "\<forall>j \<in> set [TreeNodes level ..< TreeNodes (level + 1)].
        \<exists>body. emitSubtreeEvaluation tree j fD sD = Inr body"
      using n by simp
    then show ?thesis unfolding eq using n r by (simp only: map_append rev_append set_append) auto
  qed
qed

lemma compile_levels_success:
  assumes "\<forall>j \<in> set (evaluatorRootsFrom D fD level).
      (\<exists>node. map_at tree j = Inr node) \<and> (\<exists>body. emitSubtreeEvaluation tree j fD sD = Inr body)"
  shows "\<exists>M' P'. compileEvaluators_levels tree D fD sD level M P = Inr (M', P')"
  using assms
proof (induction D fD level arbitrary: M P rule: evaluatorRootsFrom.induct)
  case (1 D fD level)
  show ?case
  proof (cases "level < D \<and> 0 < fD")
    case False
    show ?thesis by (subst compileEvaluators_levels.simps) (simp only: False if_False, blast)
  next
    case True
    have eq: "evaluatorRootsFrom D fD level =
        [TreeNodes level ..< TreeNodes (level + 1)] @ evaluatorRootsFrom D fD (level + fD)"
      using True by (subst evaluatorRootsFrom.simps) simp
    have a: "\<forall>j. TreeNodes level \<le> j \<and> j < TreeNodes (level + 1) \<longrightarrow>
        (\<exists>node. map_at tree j = Inr node) \<and> (\<exists>body. emitSubtreeEvaluation tree j fD sD = Inr body)"
      using 1(2) unfolding eq by (simp only: set_append) auto
    from compile_nodes_success[OF a, of M P] obtain M1 P1 where
      nodes: "compileEvaluators_nodes tree fD sD (TreeNodes level) (TreeNodes (level + 1)) M P = Inr (M1, P1)"
      by blast
    have b: "\<forall>j \<in> set (evaluatorRootsFrom D fD (level + fD)).
        (\<exists>node. map_at tree j = Inr node) \<and> (\<exists>body. emitSubtreeEvaluation tree j fD sD = Inr body)"
      using 1(2) unfolding eq by (simp only: set_append) auto
    from 1(1)[OF True b, of M1 P1] show ?thesis
      using True nodes by (subst compileEvaluators_levels.simps) (simp add: Let_def)
  qed
qed

lemma collect_Inr:
  "collectEvaluators jit P acc = Inr evs \<Longrightarrow> distinct (map fst acc) \<Longrightarrow>
     distinct (map fst evs) \<and> set (map fst evs) = set (map fst acc) \<union> set P
   \<and> (\<forall>i. map_of evs i = (if i \<in> set P then map_of jit i else map_of acc i))
   \<and> (\<forall>i \<in> set P. map_of jit i \<noteq> None)"
proof (induction P arbitrary: acc)
  case Nil
  then show ?case by simp
next
  case (Cons p rest)
  from Cons(2) obtain f where f: "map_of jit p = Some f"
    and rec: "collectEvaluators jit rest (AList.update p f acc) = Inr evs"
    by (auto simp: getEvaluatorFnPtr_def split: option.splits sum.splits)
  have d: "distinct (map fst (AList.update p f acc))" using Cons(3) by (rule distinct_update)
  from Cons(1)[OF rec d] have IH:
    "distinct (map fst evs)"
    "set (map fst evs) = set (map fst (AList.update p f acc)) \<union> set rest"
    "\<forall>i. map_of evs i = (if i \<in> set rest then map_of jit i else map_of (AList.update p f acc) i)"
    "\<forall>i \<in> set rest. map_of jit i \<noteq> None" by simp_all
  have keys: "set (map fst (AList.update p f acc)) = insert p (set (map fst acc))"
    by (auto simp: update_keys)
  have k: "set (map fst evs) = set (map fst acc) \<union> set (p # rest)"
    unfolding IH(2) keys by auto
  have m: "map_of evs i = (if i \<in> set (p # rest) then map_of jit i else map_of acc i)" for i
  proof (cases "i \<in> set rest")
    case True
    then show ?thesis using IH(3) by simp
  next
    case False
    then have "map_of evs i = map_of (AList.update p f acc) i" using IH(3) by simp
    also have "\<dots> = ((map_of acc)(p \<mapsto> f)) i" by (simp only: update_conv')
    finally show ?thesis using False f by simp
  qed
  have n: "\<forall>i \<in> set (p # rest). map_of jit i \<noteq> None" using IH(4) f by simp
  from IH(1) k m n show ?case by blast
qed

lemma collect_success:
  "\<forall>i \<in> set P. map_of jit i \<noteq> None \<Longrightarrow> \<exists>evs. collectEvaluators jit P acc = Inr evs"
proof (induction P arbitrary: acc)
  case Nil
  then show ?case by simp
next
  case (Cons p rest)
  then obtain f where f: "map_of jit p = Some f" by auto
  from Cons(1)[of "AList.update p f acc"] Cons(2) show ?case
    by (simp add: getEvaluatorFnPtr_def f)
qed

lemma map_of_keyed:
  "map_of (map (\<lambda>j. (j, g j)) ks) i = (if i \<in> set ks then Some (g i) else None)"
  by (induction ks) auto

lemma length_distinct_keys:
  "distinct (map fst evs) \<Longrightarrow> length evs = card (set (map fst evs))"
  by (metis distinct_card length_map)

lemma roots_card:
  assumes "0 < fD" "fD dvd D"
  shows "card (set (evaluatorRootsFrom D fD 0)) = (\<Sum>k<D div fD. 2 ^ (k * fD))"
proof -
  obtain n where n: "D = fD * n" using assms(2) by (auto simp: dvd_def)
  have "length (evaluatorRootsFrom (fD * n) fD (fD * 0)) = (\<Sum>k = 0..<n. 2 ^ (k * fD))"
    by (rule evaluatorRootsFrom_length[OF assms(1)])
  then have "length (evaluatorRootsFrom D fD 0) = (\<Sum>k<D div fD. 2 ^ (k * fD))"
    using assms(1) unfolding n by (simp add: lessThan_atLeast0)
  then show ?thesis using distinct_card[OF evaluatorRootsFrom_distinct[of D fD 0]] by simp
qed

lemma compileEvaluators_Inr:
  assumes "compileEvaluators intr tree D fD sD = Inr evs"
  shows "0 < fD \<and> fD dvd D \<and> distinct (map fst evs) \<and> set (map fst evs) = evaluatorRoots D fD
       \<and> length evs = (\<Sum>k<D div fD. 2 ^ (k * fD))
       \<and> (\<forall>i \<in> evaluatorRoots D fD. \<exists>body. emitSubtreeEvaluation tree i fD sD = Inr body
             \<and> map_of evs i = Some (\<lambda>data. exec_eval_ir intr data body))"
proof -
  from assms have pos: "0 < fD" and dvd: "fD dvd D"
    by (auto simp: compileEvaluators_def split: if_splits)
  from assms pos dvd obtain M P where
    lv: "compileEvaluators_levels tree D fD sD 0 [] [] = Inr (M, P)"
    and col: "collectEvaluators (submitModule intr M) P [] = Inr evs"
    by (auto simp: compileEvaluators_def Let_def split: if_splits sum.splits)
  note l = compile_levels_Inr[OF lv]
  define body where "body = (\<lambda>j. projr (emitSubtreeEvaluation tree j fD sD))"
  have M: "M = map (\<lambda>j. (j, body j)) (evaluatorRootsFrom D fD 0)" using l by (simp add: body_def)
  have P: "P = rev (evaluatorRootsFrom D fD 0)" using l by simp
  have jit: "map_of (submitModule intr M) i =
      (if i \<in> set (evaluatorRootsFrom D fD 0) then Some (\<lambda>data. exec_eval_ir intr data (body i)) else None)" for i
    unfolding M submitModule_def by (simp add: comp_def map_of_keyed)
  from collect_Inr[OF col] have c:
    "distinct (map fst evs)" "set (map fst evs) = set P"
    "\<forall>i. map_of evs i = (if i \<in> set P then map_of (submitModule intr M) i else None)" by simp_all
  have keys: "set (map fst evs) = evaluatorRoots D fD"
    using c(2) P evaluatorRootsFrom_roots[OF pos] by simp
  have len: "length evs = (\<Sum>k<D div fD. 2 ^ (k * fD))"
    using length_distinct_keys[OF c(1)] c(2) P roots_card[OF pos dvd] by simp
  have "\<forall>i \<in> evaluatorRoots D fD. \<exists>body. emitSubtreeEvaluation tree i fD sD = Inr body
             \<and> map_of evs i = Some (\<lambda>data. exec_eval_ir intr data body)"
  proof
    fix i assume "i \<in> evaluatorRoots D fD"
    then have i: "i \<in> set (evaluatorRootsFrom D fD 0)" using evaluatorRootsFrom_roots[OF pos] by simp
    then obtain b where b: "emitSubtreeEvaluation tree i fD sD = Inr b" using l by blast
    then have "body i = b" by (simp add: body_def)
    moreover have "map_of evs i = Some (\<lambda>data. exec_eval_ir intr data (body i))"
      using c(3) i P jit by simp
    ultimately show "\<exists>body. emitSubtreeEvaluation tree i fD sD = Inr body
             \<and> map_of evs i = Some (\<lambda>data. exec_eval_ir intr data body)" using b by simp
  qed
  with pos dvd c(1) keys len show ?thesis by blast
qed

lemma compileEvaluators_success:
  assumes "0 < fD" "fD dvd D"
    and "\<forall>i \<in> evaluatorRoots D fD.
      (\<exists>node. map_at tree i = Inr node) \<and> (\<exists>body. emitSubtreeEvaluation tree i fD sD = Inr body)"
  shows "\<exists>evs. compileEvaluators intr tree D fD sD = Inr evs"
proof -
  have a: "\<forall>j \<in> set (evaluatorRootsFrom D fD 0).
      (\<exists>node. map_at tree j = Inr node) \<and> (\<exists>body. emitSubtreeEvaluation tree j fD sD = Inr body)"
    using assms(3) evaluatorRootsFrom_roots[OF assms(1)] by simp
  from compile_levels_success[OF a, of "[]" "[]"] obtain M P where
    lv: "compileEvaluators_levels tree D fD sD 0 [] [] = Inr (M, P)" by blast
  note l = compile_levels_Inr[OF lv]
  define body where "body = (\<lambda>j. projr (emitSubtreeEvaluation tree j fD sD))"
  have M: "M = map (\<lambda>j. (j, body j)) (evaluatorRootsFrom D fD 0)" using l by (simp add: body_def)
  have P: "P = rev (evaluatorRootsFrom D fD 0)" using l by simp
  have jit: "map_of (submitModule intr M) i =
      (if i \<in> set (evaluatorRootsFrom D fD 0) then Some (\<lambda>data. exec_eval_ir intr data (body i)) else None)" for i
    unfolding M submitModule_def by (simp add: comp_def map_of_keyed)
  have "\<forall>i \<in> set P. map_of (submitModule intr M) i \<noteq> None" using jit P by simp
  from collect_success[OF this, of "[]"] obtain evs where
    col: "collectEvaluators (submitModule intr M) P [] = Inr evs" by blast
  from collect_Inr[OF col] have c: "distinct (map fst evs)" "set (map fst evs) = set P" by simp_all
  have len: "length evs = (\<Sum>k<D div fD. 2 ^ (k * fD))"
    using length_distinct_keys[OF c(1)] c(2) P roots_card[OF assms(1,2)] by simp
  have "compileEvaluators intr tree D fD sD = Inr evs"
    using assms(1,2) lv col len
    by (simp add: compileEvaluators_def Let_def getNumCompiledEvaluators_dvd)
  then show ?thesis by blast
qed

section \<open>The loops of loadEvaluators\<close>

lemma collect_append:
  "collectEvaluators jit (xs @ ys) acc =
     (case collectEvaluators jit xs acc of Inl e \<Rightarrow> Inl e | Inr a \<Rightarrow> collectEvaluators jit ys a)"
  by (induction xs arbitrary: acc) (auto split: sum.splits)

lemma load_offsets_collect:
  "off \<le> num \<Longrightarrow> loadEvaluators_offsets jit first num off acc =
     collectEvaluators jit (map (\<lambda>offset. first + offset) [off..<num]) acc"
proof (induction "num - off" arbitrary: off acc)
  case 0
  then show ?case by (subst loadEvaluators_offsets.simps) simp
next
  case (Suc d)
  then have lt: "off < num" by simp
  have upt: "[off..<num] = off # [Suc off..<num]" using lt by (rule upt_conv_Cons)
  have d: "d = num - Suc off" using Suc(2) by simp
  have le: "Suc off \<le> num" using lt by simp
  show ?case
    using lt Suc(1)[OF d le]
    by (subst loadEvaluators_offsets.simps) (simp add: upt Let_def split: sum.splits)
qed

lemma level_nodes_offsets:
  "[TreeNodes l ..< TreeNodes (l + 1)] = map (\<lambda>offset. TreeNodes l + offset) [0..<PowerOf2 l]"
proof -
  have "map (\<lambda>offset. TreeNodes l + offset) [0..<PowerOf2 l] = map (\<lambda>i. i + TreeNodes l) [0..<PowerOf2 l]"
    by (simp add: add.commute)
  also have "\<dots> = [TreeNodes l ..< PowerOf2 l + TreeNodes l]" by (rule map_add_upt)
  also have "PowerOf2 l + TreeNodes l = TreeNodes (l + 1)" by (simp add: PowerOf2_def TreeNodes_def)
  finally show ?thesis by simp
qed

lemma load_levels_collect:
  "loadEvaluators_levels jit D fD level acc = collectEvaluators jit (evaluatorRootsFrom D fD level) acc"
proof (induction D fD level arbitrary: acc rule: evaluatorRootsFrom.induct)
  case (1 D fD level)
  show ?case
  proof (cases "level < D \<and> 0 < fD")
    case False
    have "evaluatorRootsFrom D fD level = []"
      by (subst evaluatorRootsFrom.simps) (simp only: False if_False)
    moreover have "loadEvaluators_levels jit D fD level acc = Inr acc"
      by (subst loadEvaluators_levels.simps) (simp only: False if_False)
    ultimately show ?thesis by simp
  next
    case True
    have eq: "evaluatorRootsFrom D fD level =
        [TreeNodes level ..< TreeNodes (level + 1)] @ evaluatorRootsFrom D fD (level + fD)"
      using True by (subst evaluatorRootsFrom.simps) simp
    have off: "loadEvaluators_offsets jit (TreeNodes level) (PowerOf2 level) 0 acc =
        collectEvaluators jit [TreeNodes level ..< TreeNodes (level + 1)] acc"
      unfolding level_nodes_offsets by (rule load_offsets_collect) simp
    have "loadEvaluators_levels jit D fD level acc =
        (case collectEvaluators jit [TreeNodes level ..< TreeNodes (level + 1)] acc of
           Inl e \<Rightarrow> Inl e
         | Inr a \<Rightarrow> loadEvaluators_levels jit D fD (level + fD) a)"
      using True by (subst loadEvaluators_levels.simps) (simp add: Let_def off)
    also have "\<dots> = collectEvaluators jit (evaluatorRootsFrom D fD level) acc"
      unfolding eq collect_append using 1[OF True] by (simp split: sum.splits)
    finally show ?thesis .
  qed
qed

lemma loadEvaluators_Inr:
  assumes "loadEvaluators jit D fD = Inr evs"
  shows "0 < fD \<and> distinct (map fst evs) \<and> set (map fst evs) = evaluatorRoots D fD"
proof -
  from assms have pos: "0 < fD"
    by (auto simp: loadEvaluators_def getNumCompiledEvaluators_def split: if_splits)
  from assms pos have "collectEvaluators jit (evaluatorRootsFrom D fD 0) [] = Inr evs"
    by (auto simp: loadEvaluators_def load_levels_collect split: sum.splits if_splits)
  from collect_Inr[OF this] have "distinct (map fst evs)"
    "set (map fst evs) = set (evaluatorRootsFrom D fD 0)" by simp_all
  with pos evaluatorRootsFrom_roots[OF pos] show ?thesis by simp
qed

lemma perfect_tree_length: "perfect_tree tree D \<Longrightarrow> length tree = 2 ^ D - 1"
proof -
  assume "perfect_tree tree D"
  then have "distinct (map fst tree)" "set (map fst tree) = {..<2 ^ D - 1}"
    by (simp_all add: perfect_tree_def)
  then show ?thesis using length_distinct_keys[of tree] by simp
qed

section \<open>Leaf descriptors\<close>

declare markLeafPaths.simps [simp del] buildSubtreeLeafNodePathsBitsMapsRecursively.simps [simp del]
  emitComputeConditionVector_loop.simps [simp del]

lemma update_append_nonmember:
  "k \<notin> set (map fst al) \<Longrightarrow> AList.update k v al = al @ [(k, v)]"
  by (induction al) auto

lemma subtreeLevel_split:
  "subtreeLevel b (Suc r) = subtreeLevel (2 * b + 1) r @ subtreeLevel (2 * b + 2) r"
proof (induction r)
  case 0
  show ?case by simp
next
  case (Suc r)
  have "subtreeLevel b (Suc (Suc r)) = concat (map (\<lambda>i. [2 * i + 1, 2 * i + 2]) (subtreeLevel b (Suc r)))"
    by (rule subtreeLevel.simps)
  also have "\<dots> = concat (map (\<lambda>i. [2 * i + 1, 2 * i + 2]) (subtreeLevel (2 * b + 1) r))
      @ concat (map (\<lambda>i. [2 * i + 1, 2 * i + 2]) (subtreeLevel (2 * b + 2) r))"
    unfolding Suc by simp
  finally show ?case by simp
qed

lemma subtreeLevel_length: "length (subtreeLevel b r) = 2 ^ r"
proof -
  have "(b + 2) * 2 ^ r - 1 - ((b + 1) * 2 ^ r - 1) = 2 ^ r" by (simp add: algebra_simps)
  then show ?thesis by (simp add: subtreeLevel_eq)
qed

lemma subtreeLevel_distinct: "distinct (subtreeLevel b r)"
  by (simp add: subtreeLevel_eq)

lemma subtreeLevel_ge: "n \<in> set (subtreeLevel b r) \<Longrightarrow> b \<le> n"
proof -
  assume "n \<in> set (subtreeLevel b r)"
  then have "(b + 1) * 2 ^ r - 1 \<le> n" by (simp add: subtreeLevel_eq)
  moreover have "(b + 1) * 1 \<le> (b + 1) * 2 ^ r" by (rule mult_le_mono2) simp
  ultimately show ?thesis by simp
qed

lemma subtreeLevel_children_disjoint:
  "set (subtreeLevel (2 * b + 1) r) \<inter> set (subtreeLevel (2 * b + 2) r) = {}"
  using subtreeLevel_distinct[of b "Suc r"] unfolding subtreeLevel_split by simp

lemma subtreeLeavesTrueFirst_rev: "subtreeLeavesTrueFirst n r = rev (subtreeLevel n r)"
proof (induction r arbitrary: n)
  case 0
  show ?case by simp
next
  case (Suc r)
  show ?case unfolding subtreeLeavesTrueFirst.simps Suc subtreeLevel_split by simp
qed

lemma subtreeNodes_Suc:
  "subtreeNodes b (Suc r) = insert b (subtreeNodes (2 * b + 1) r \<union> subtreeNodes (2 * b + 2) r)"
proof -
  have "subtreeNodes b (Suc r) = (\<Union>l \<in> {..<Suc r}. set (subtreeLevel b l))"
    by (simp add: subtreeNodes_def)
  also have "{..<Suc r} = insert 0 (Suc ` {..<r})" by (rule lessThan_Suc_eq_insert_0)
  also have "(\<Union>l \<in> insert 0 (Suc ` {..<r}). set (subtreeLevel b l)) =
      insert b (\<Union>l \<in> {..<r}. set (subtreeLevel b (Suc l)))" by simp
  also have "(\<Union>l \<in> {..<r}. set (subtreeLevel b (Suc l))) =
      subtreeNodes (2 * b + 1) r \<union> subtreeNodes (2 * b + 2) r"
    unfolding subtreeLevel_split subtreeNodes_def by auto
  finally show ?thesis .
qed

lemma subtreeNodes_ge: "n \<in> subtreeNodes b r \<Longrightarrow> b \<le> n"
  by (auto simp: subtreeNodes_def dest: subtreeLevel_ge)

lemma leafPaths_length: "length (leafPaths b r) = 2 ^ r"
  by (induction r arbitrary: b) simp_all

lemma leafPaths_leaves: "map fst (leafPaths b r) = subtreeLeavesTrueFirst b r"
  by (induction r arbitrary: b) (simp_all add: markPath_def comp_def)

lemma leafPaths_keys:
  "d \<in> set (leafPaths b r) \<Longrightarrow>
     length (snd d) = r \<and> distinct (map fst (snd d)) \<and> set (map fst (snd d)) \<subseteq> subtreeNodes b r
   \<and> (\<forall>a \<in> set (map fst (snd d)). \<exists>l. 0 < l \<and> l \<le> r \<and> fst d \<in> set (subtreeLevel a l))"
proof (induction r arbitrary: b d)
  case 0
  then show ?case by simp
next
  case (Suc r)
  from Suc(2) have "d \<in> markPath b True ` set (leafPaths (2 * b + 2) r)
      \<or> d \<in> markPath b False ` set (leafPaths (2 * b + 1) r)" by auto
  then obtain c v d' where
    c: "c = 2 * b + 2 \<and> v = True \<or> c = 2 * b + 1 \<and> v = False"
    and d': "d' \<in> set (leafPaths c r)" and d: "d = markPath b v d'"
    by blast
  from Suc(1)[OF d'] have IH:
    "length (snd d') = r" "distinct (map fst (snd d'))" "set (map fst (snd d')) \<subseteq> subtreeNodes c r"
    "\<forall>a \<in> set (map fst (snd d')). \<exists>l. 0 < l \<and> l \<le> r \<and> fst d' \<in> set (subtreeLevel a l)"
    by simp_all
  have bc: "b < c" using c by auto
  have notin: "b \<notin> set (map fst (snd d'))"
  proof
    assume "b \<in> set (map fst (snd d'))"
    then have "b \<in> subtreeNodes c r" using IH(3) by blast
    from subtreeNodes_ge[OF this] bc show False by simp
  qed
  have keys: "map fst (snd d) = map fst (snd d') @ [b]"
    using notin by (simp add: d markPath_def update_keys)
  have sub: "subtreeNodes c r \<subseteq> subtreeNodes b (Suc r)" using c by (auto simp: subtreeNodes_Suc)
  have leaf: "fst d' \<in> set (subtreeLevel c r)"
    using d' leafPaths_leaves[of c r] unfolding subtreeLeavesTrueFirst_rev
    by (metis image_eqI set_map set_rev)
  have leafb: "fst d \<in> set (subtreeLevel b (Suc r))"
    using leaf c unfolding subtreeLevel_split by (auto simp: d markPath_def)
  have anc: "\<forall>a \<in> set (map fst (snd d)). \<exists>l. 0 < l \<and> l \<le> Suc r \<and> fst d \<in> set (subtreeLevel a l)"
  proof
    fix a assume "a \<in> set (map fst (snd d))"
    then consider "a = b" | "a \<in> set (map fst (snd d'))" unfolding keys by auto
    then show "\<exists>l. 0 < l \<and> l \<le> Suc r \<and> fst d \<in> set (subtreeLevel a l)"
    proof cases
      case 1
      then show ?thesis using leafb by blast
    next
      case 2
      with IH(4) obtain l where "0 < l" "l \<le> r" "fst d' \<in> set (subtreeLevel a l)" by blast
      then show ?thesis by (auto simp: d markPath_def intro!: exI[of _ l])
    qed
  qed
  have "length (snd d) = Suc r" using keys IH(1) by (metis length_append_singleton length_map)
  moreover have "distinct (map fst (snd d))" unfolding keys using IH(2) notin by simp
  moreover have "set (map fst (snd d)) \<subseteq> subtreeNodes b (Suc r)"
    unfolding keys using IH(3) sub by (auto simp: subtreeNodes_Suc)
  ultimately show ?case using anc by blast
qed

lemma walk_in_level: "walk c b r \<in> set (subtreeLevel b r)"
proof (induction r arbitrary: b)
  case 0
  show ?case by simp
next
  case (Suc r)
  show ?case unfolding subtreeLevel_split using Suc[of "2 * b + 1"] Suc[of "2 * b + 2"] by simp
qed

lemma leafPaths_match:
  "d \<in> set (leafPaths b r) \<Longrightarrow> path_matches c (snd d) \<longleftrightarrow> fst d = walk c b r"
proof (induction r arbitrary: b d)
  case 0
  then show ?case by (simp add: path_matches_def)
next
  case (Suc r)
  from Suc(2) have "d \<in> markPath b True ` set (leafPaths (2 * b + 2) r)
      \<or> d \<in> markPath b False ` set (leafPaths (2 * b + 1) r)" by auto
  then obtain ch v d' where
    ch: "ch = 2 * b + 2 \<and> v = True \<or> ch = 2 * b + 1 \<and> v = False"
    and d': "d' \<in> set (leafPaths ch r)" and d: "d = markPath b v d'"
    by blast
  have keys: "set (map fst (snd d')) \<subseteq> subtreeNodes ch r" using leafPaths_keys[OF d'] by simp
  have notin: "b \<notin> set (map fst (snd d'))"
  proof
    assume "b \<in> set (map fst (snd d'))"
    then have "b \<in> subtreeNodes ch r" using keys by blast
    from subtreeNodes_ge[OF this] ch show False by auto
  qed
  have upd: "snd d = snd d' @ [(b, v)]"
    using notin by (simp add: d markPath_def update_append_nonmember)
  have m: "path_matches c (snd d) \<longleftrightarrow> c b = v \<and> path_matches c (snd d')"
    unfolding upd path_matches_def by auto
  have leaf: "fst d' \<in> set (subtreeLevel ch r)"
    using d' leafPaths_leaves[of ch r] unfolding subtreeLeavesTrueFirst_rev
    by (metis image_eqI set_map set_rev)
  have fd: "fst d = fst d'" by (simp add: d markPath_def)
  show ?case
  proof (cases "c b = v")
    case True
    then have "walk c b (Suc r) = walk c ch r" using ch by auto
    then show ?thesis unfolding m fd using True Suc(1)[OF d'] by simp
  next
    case False
    define other where "other = (if c b then 2 * b + 2 else 2 * b + 1)"
    have w: "walk c b (Suc r) = walk c other r" by (simp add: other_def)
    have "walk c other r \<in> set (subtreeLevel other r)" by (rule walk_in_level)
    moreover have "set (subtreeLevel other r) \<inter> set (subtreeLevel ch r) = {}"
      using subtreeLevel_children_disjoint[of b r] False ch by (auto simp: other_def)
    ultimately have "fst d' \<noteq> walk c other r" using leaf by auto
    then show ?thesis unfolding m fd w using False by simp
  qed
qed

lemma leafPaths_unique_match:
  "\<exists>!i. i < length (leafPaths b r) \<and> path_matches c (snd (leafPaths b r ! i))"
proof -
  have dist: "distinct (map fst (leafPaths b r))"
    unfolding leafPaths_leaves subtreeLeavesTrueFirst_rev using subtreeLevel_distinct by simp
  have "walk c b r \<in> set (map fst (leafPaths b r))"
    unfolding leafPaths_leaves subtreeLeavesTrueFirst_rev using walk_in_level by simp
  then obtain i where "i < length (map fst (leafPaths b r))" "map fst (leafPaths b r) ! i = walk c b r"
    unfolding in_set_conv_nth by blast
  then have i: "i < length (leafPaths b r)" "fst (leafPaths b r ! i) = walk c b r" by simp_all
  show ?thesis
  proof (rule ex1I[of _ i])
    show "i < length (leafPaths b r) \<and> path_matches c (snd (leafPaths b r ! i))"
      using i leafPaths_match[of "leafPaths b r ! i" b r c] by simp
  next
    fix j assume j: "j < length (leafPaths b r) \<and> path_matches c (snd (leafPaths b r ! j))"
    then have "fst (leafPaths b r ! j) = walk c b r"
      using leafPaths_match[of "leafPaths b r ! j" b r c] by simp
    then have "map fst (leafPaths b r) ! j = map fst (leafPaths b r) ! i" using i j by simp
    moreover have "i < length (map fst (leafPaths b r))" "j < length (map fst (leafPaths b r))"
      using i(1) j by simp_all
    ultimately show "j = i" using dist by (metis nth_eq_iff_index_eq)
  qed
qed

section \<open>The path-bitmap builder\<close>

lemma getNodeIdx_children_Suc:
  "getNodeIdxForSubtreeBitOffset R k (Suc (2 * b)) = Suc (2 * getNodeIdxForSubtreeBitOffset R k b)"
  "getNodeIdxForSubtreeBitOffset R k (Suc (Suc (2 * b))) =
     Suc (Suc (2 * getNodeIdxForSubtreeBitOffset R k b))"
  using getNodeIdx_false_child[of R k b] getNodeIdx_true_child[of R k b] by simp_all

lemma markLeafPaths_append:
  "length ys = i \<Longrightarrow> n = i + length xs \<Longrightarrow>
     markLeafPaths i n off v (pre @ xs @ ys) = Inr (pre @ map (markPath off v) xs @ ys)"
proof (induction xs arbitrary: i ys rule: rev_induct)
  case Nil
  then show ?case by (subst markLeafPaths.simps) simp
next
  case (snoc x xs)
  have lt: "i < n" using snoc(3) by simp
  have len: "i < length (pre @ (xs @ [x]) @ ys)" by (simp add: snoc(2))
  have pos: "length (pre @ (xs @ [x]) @ ys) - i - 1 = length (pre @ xs)" by (simp add: snoc(2))
  have nth: "(pre @ (xs @ [x]) @ ys) ! length (pre @ xs) = x"
    by (metis append.assoc append_Cons append_Nil nth_append_length)
  have upd: "(pre @ (xs @ [x]) @ ys)[length (pre @ xs) := (fst x, AList.update off v (snd x))]
      = pre @ xs @ ((fst x, AList.update off v (snd x)) # ys)"
    by (metis append.assoc append_Cons append_Nil list_update_length)
  have "markLeafPaths i n off v (pre @ (xs @ [x]) @ ys) =
      markLeafPaths (Suc i) n off v (pre @ xs @ ((fst x, AList.update off v (snd x)) # ys))"
    using lt len
    by (subst markLeafPaths.simps) (simp only: pos nth upd if_True Let_def)
  then have "markLeafPaths i n off v (pre @ (xs @ [x]) @ ys) =
      markLeafPaths (Suc i) n off v (pre @ xs @ (markPath off v x # ys))"
    by (simp only: markPath_def)
  also have "\<dots> = Inr (pre @ map (markPath off v) xs @ (markPath off v x # ys))"
    by (rule snoc(1)) (use snoc(2,3) in simp_all)
  finally show ?case by simp
qed

lemma markLeafPaths_suffix:
  "length xs = n \<Longrightarrow> markLeafPaths 0 n off v (pre @ xs) = Inr (pre @ map (markPath off v) xs)"
  using markLeafPaths_append[of "[]" 0 n xs off v pre] by simp

lemma emitComputeConditionVector_loop_result:
  assumes "\<forall>b'. b \<le> b' \<and> b' < n \<longrightarrow>
      (\<exists>node. map_of tree (getNodeIdxForSubtreeBitOffset R k b') = Some node)"
  shows "emitComputeConditionVector_loop tree R k n b code offs =
     Inr (code @ map (\<lambda>b'. (emitSingleNodeEvaluaton
                               (the (map_of tree (getNodeIdxForSubtreeBitOffset R k b'))),
                             APInt 6 b')) [b..<n],
          fold (\<lambda>b' m. AList.update (getNodeIdxForSubtreeBitOffset R k b') b' m) [b..<n] offs)"
  using assms
proof (induction "n - b" arbitrary: b code offs)
  case 0
  then have "\<not> b < n" by simp
  then show ?case by (subst emitComputeConditionVector_loop.simps) simp
next
  case (Suc d)
  then have lt: "b < n" by simp
  then obtain node where node: "map_of tree (getNodeIdxForSubtreeBitOffset R k b) = Some node"
    using Suc(3) by auto
  have upt: "[b..<n] = b # [Suc b..<n]" using lt by (rule upt_conv_Cons)
  have d: "d = n - Suc b" using Suc(2) by simp
  have rest: "\<forall>b'. Suc b \<le> b' \<and> b' < n \<longrightarrow>
      (\<exists>node. map_of tree (getNodeIdxForSubtreeBitOffset R k b') = Some node)"
    using Suc(3) by simp
  show ?case
    using lt node Suc(1)[OF d rest]
    by (subst emitComputeConditionVector_loop.simps) (simp add: upt Let_def map_at_def)
qed

lemma bitOffsets_lookup:
  "map_of (fold (\<lambda>b' m. AList.update (getNodeIdxForSubtreeBitOffset R k b') b' m) bs offs)
     (getNodeIdxForSubtreeBitOffset R k x) =
   (if x \<in> set bs then Some x else map_of offs (getNodeIdxForSubtreeBitOffset R k x))"
proof (induction bs arbitrary: offs)
  case Nil
  show ?case by simp
next
  case (Cons b bs)
  have inj: "getNodeIdxForSubtreeBitOffset R k x = getNodeIdxForSubtreeBitOffset R k b \<longleftrightarrow> x = b"
    using getNodeIdx_inj[of R k x k b] by auto
  show ?case
    using inj by (simp add: Cons update_conv')
qed

lemma perfect_tree_node:
  assumes "perfect_tree tree D" "i < 2 ^ D - 1"
  shows "\<exists>node. map_of tree i = Some node \<and> map_at tree i = Inr node
           \<and> TrueChildNodeIdx node = 2 * i + 2 \<and> FalseChildNodeIdx node = 2 * i + 1"
proof -
  have "i \<in> set (map fst tree)" using assms by (simp add: perfect_tree_def)
  from map_at_key[OF this] obtain node where n: "map_at tree i = Inr node" "(i, node) \<in> set tree"
    by blast
  have "list_all (\<lambda>entry. TrueChildNodeIdx (snd entry) = 2 * fst entry + 2
                      \<and> FalseChildNodeIdx (snd entry) = 2 * fst entry + 1) tree"
    using assms(1) by (simp add: perfect_tree_def)
  then have "TrueChildNodeIdx node = 2 * i + 2 \<and> FalseChildNodeIdx node = 2 * i + 1"
    using n(2) unfolding list_all_iff by fastforce
  then show ?thesis using n(1) by (auto simp: map_at_Inr_iff)
qed

lemma subtree_node_internal:
  assumes "Log2 (R + 1) + k \<le> D" "Log2 (b + 1) < k"
  shows "getNodeIdxForSubtreeBitOffset R k b < 2 ^ D - 1"
proof -
  have "Log2 (getNodeIdxForSubtreeBitOffset R k b + 1) < D"
    unfolding getNodeIdx_level using assms by simp
  then show ?thesis using internal_iff_level by blast
qed

lemma level_bitOffset: "Log2 (b + 1) < k \<Longrightarrow> b < 2 ^ k - 1"
proof -
  assume "Log2 (b + 1) < k"
  then have "b + 1 < 2 ^ k" using Log2_lt_iff[of "b + 1" k] by simp
  then show ?thesis by simp
qed

lemma buildPaths_result:
  assumes tree: "perfect_tree tree D" and inside: "Log2 (R + 1) + k \<le> D"
    and offs: "\<forall>x < 2 ^ k - 1. map_of offs (getNodeIdxForSubtreeBitOffset R k x) = Some x"
  shows "Log2 (b + 1) + r \<le> k \<Longrightarrow>
     buildSubtreeLeafNodePathsBitsMapsRecursively tree (getNodeIdxForSubtreeBitOffset R k b) r offs res =
       Inr (res @ map (\<lambda>d. (getNodeIdxForSubtreeBitOffset R k (fst d), snd d)) (leafPaths b r))"
proof (induction r arbitrary: b res)
  case 0
  show ?case by (subst buildSubtreeLeafNodePathsBitsMapsRecursively.simps) simp
next
  case (Suc r)
  let ?g = "getNodeIdxForSubtreeBitOffset R k"
  let ?f = "\<lambda>d. (?g (fst d), snd d)"
  have lv: "Log2 (b + 1) < k" using Suc(2) by simp
  from perfect_tree_node[OF tree subtree_node_internal[OF inside lv]] obtain node where
    node: "map_at tree (?g b) = Inr node" "TrueChildNodeIdx node = 2 * ?g b + 2"
          "FalseChildNodeIdx node = 2 * ?g b + 1" by blast
  have off: "map_at offs (?g b) = Inr b"
    using offs level_bitOffset[OF lv] by (simp add: map_at_Inr_iff)
  have t: "TrueChildNodeIdx node = ?g (2 * b + 2)" using node(2) by (simp only: getNodeIdx_true_child)
  have f: "FalseChildNodeIdx node = ?g (2 * b + 1)" using node(3) by (simp only: getNodeIdx_false_child)
  have lt: "Log2 (2 * b + 2 + 1) + r \<le> k" using Suc(2) Log2_double(2)[of b] by (simp add: numeral_3_eq_3)
  have lf: "Log2 (2 * b + 1 + 1) + r \<le> k" using Suc(2) Log2_double(1)[of b] by simp
  have half: "PowerOf2 (Suc r) div 2 = 2 ^ r" by (simp add: PowerOf2_def)
  have r1: "buildSubtreeLeafNodePathsBitsMapsRecursively tree (?g (2 * b + 2)) r offs res =
      Inr (res @ map ?f (leafPaths (2 * b + 2) r))" by (rule Suc(1)[OF lt])
  have m1: "markLeafPaths 0 (2 ^ r) b True (res @ map ?f (leafPaths (2 * b + 2) r)) =
      Inr (res @ map (markPath b True) (map ?f (leafPaths (2 * b + 2) r)))"
    by (rule markLeafPaths_suffix) (simp add: leafPaths_length)
  have r2: "buildSubtreeLeafNodePathsBitsMapsRecursively tree (?g (2 * b + 1)) r offs
        (res @ map (markPath b True) (map ?f (leafPaths (2 * b + 2) r))) =
      Inr ((res @ map (markPath b True) (map ?f (leafPaths (2 * b + 2) r)))
           @ map ?f (leafPaths (2 * b + 1) r))" by (rule Suc(1)[OF lf])
  have m2: "markLeafPaths 0 (2 ^ r) b False
        ((res @ map (markPath b True) (map ?f (leafPaths (2 * b + 2) r)))
           @ map ?f (leafPaths (2 * b + 1) r)) =
      Inr ((res @ map (markPath b True) (map ?f (leafPaths (2 * b + 2) r)))
           @ map (markPath b False) (map ?f (leafPaths (2 * b + 1) r)))"
    by (rule markLeafPaths_suffix) (simp add: leafPaths_length)
  have comm: "map (markPath b v) (map ?f xs) = map ?f (map (markPath b v) xs)" for v xs
    by (simp add: markPath_def comp_def)
  have "buildSubtreeLeafNodePathsBitsMapsRecursively tree (?g b) (Suc r) offs res =
      Inr ((res @ map (markPath b True) (map ?f (leafPaths (2 * b + 2) r)))
           @ map (markPath b False) (map ?f (leafPaths (2 * b + 1) r)))"
    by (subst buildSubtreeLeafNodePathsBitsMapsRecursively.simps)
       (simp only: node(1) off t f half r1 m1 r2 m2 Let_def sum.case nat.distinct if_False
          diff_Suc_1)
  then show ?case unfolding leafPaths.simps map_append comm by simp
qed

lemma getNodeIdx_subtreeLevel:
  "map (getNodeIdxForSubtreeBitOffset R k) (subtreeLevel a l) =
     subtreeLevel (getNodeIdxForSubtreeBitOffset R k a) l"
proof (induction l)
  case 0
  show ?case by simp
next
  case (Suc l)
  let ?g = "getNodeIdxForSubtreeBitOffset R k"
  let ?ch = "\<lambda>i::nat. [2 * i + 1, 2 * i + 2]"
  have sw: "map ?g \<circ> ?ch = ?ch \<circ> ?g"
    by (rule ext) (simp add: getNodeIdx_children_Suc)
  have "map ?g (subtreeLevel a (Suc l)) = concat (map (map ?g \<circ> ?ch) (subtreeLevel a l))"
    by (simp add: map_concat)
  also have "\<dots> = concat (map ?ch (map ?g (subtreeLevel a l)))"
    unfolding sw by simp
  also have "\<dots> = subtreeLevel (?g a) (Suc l)" unfolding Suc by simp
  finally show ?case .
qed

lemma getNodeIdx_leavesTrueFirst:
  "map (getNodeIdxForSubtreeBitOffset R k) (subtreeLeavesTrueFirst 0 l) = subtreeLeavesTrueFirst R l"
  unfolding subtreeLeavesTrueFirst_rev rev_map[symmetric] getNodeIdx_subtreeLevel getNodeIdx_root ..

lemma getNodeIdx_root0: "getNodeIdxForSubtreeBitOffset 0 k b = b"
proof -
  have "2 ^ Log2 (b + 1) \<le> b + 1" using Log2_bounds[of "b + 1"] by simp
  then show ?thesis using getNodeIdx_closed[of 0 k b] by simp
qed

lemma subtreeNodes_root0: "subtreeNodes 0 k = {..<2 ^ k - 1}"
  using getNodeIdx_image[of 0 k] by (simp add: getNodeIdx_root0)

lemma emitComputeConditionVector_result:
  assumes "perfect_tree tree D" and "Log2 (R + 1) + k \<le> D"
  shows "emitComputeConditionVector tree R k (TreeNodes k) [] =
     Inr (map (\<lambda>b. (emitSingleNodeEvaluaton (the (map_of tree (getNodeIdxForSubtreeBitOffset R k b))),
                      APInt 6 b)) [0..<2 ^ k - 1],
          fold (\<lambda>b m. AList.update (getNodeIdxForSubtreeBitOffset R k b) b m) [0..<2 ^ k - 1] [])"
proof -
  have "\<forall>b. 0 \<le> b \<and> b < 2 ^ k - 1 \<longrightarrow>
      (\<exists>node. map_of tree (getNodeIdxForSubtreeBitOffset R k b) = Some node)"
    using perfect_tree_node[OF assms(1) subtree_node_internal[OF assms(2) bitOffset_level]] by blast
  from emitComputeConditionVector_loop_result[OF this, of "[]" "[]"]
  show ?thesis by (simp add: emitComputeConditionVector_def TreeNodes_def)
qed

lemma bitOffsets_result:
  assumes "perfect_tree tree D" and "Log2 (R + 1) + k \<le> D"
    and "emitComputeConditionVector tree R k (TreeNodes k) [] = Inr (code, offs)"
  shows "\<forall>x < 2 ^ k - 1. map_of offs (getNodeIdxForSubtreeBitOffset R k x) = Some x"
proof -
  have "offs = fold (\<lambda>b m. AList.update (getNodeIdxForSubtreeBitOffset R k b) b m) [0..<2 ^ k - 1] []"
    using assms(3) unfolding emitComputeConditionVector_result[OF assms(1,2)] by simp
  then show ?thesis by (simp add: bitOffsets_lookup)
qed

lemma path_matches_self:
  assumes "distinct (map fst m)"
  shows "path_matches (\<lambda>b. map_of m b = Some True) m"
  unfolding path_matches_def list_all_iff
proof
  fix e assume "e \<in> set m"
  then have "(fst e, snd e) \<in> set m" by simp
  with assms have "map_of m (fst e) = Some (snd e)" by (rule map_of_is_SomeI)
  then show "(map_of m (fst e) = Some True) = snd e" by simp
qed

section \<open>The variant enumerator\<close>

declare buildCanonicalConditionVectorVariantsRecursively.simps [simp del]

lemma bit_single_32:
  "bit (2 ^ b :: 32 word) i \<longleftrightarrow> i = b \<and> b < 32"
  "bit (push_bit b (1 :: 32 word)) i \<longleftrightarrow> i = b \<and> b < 32"
  by (auto simp: bit_exp_iff)

lemma template_loop_bits:
  assumes "\<forall>e \<in> set m. fst e < 32"
  shows "\<exists>t. buildFixedConditionVectorTemplate_loop m acc = Inr t
           \<and> (\<forall>i. bit t i \<longleftrightarrow> bit acc i \<or> (i, True) \<in> set m)"
  using assms
proof (induction m arbitrary: acc)
  case Nil
  show ?case by simp
next
  case (Cons e m)
  have lt: "fst e < 32" using Cons(2) by simp
  define acc' where "acc' = acc OR push_bit (fst e) (if snd e then 1 else 0 :: 32 word)"
  have b: "bit acc' i \<longleftrightarrow> bit acc i \<or> (i = fst e \<and> snd e)" for i
    using lt by (auto simp: acc'_def bit_or_iff bit_single_32)
  from Cons(1)[of acc'] Cons(2) obtain t where
    t: "buildFixedConditionVectorTemplate_loop m acc' = Inr t"
       "\<forall>i. bit t i \<longleftrightarrow> bit acc' i \<or> (i, True) \<in> set m" by auto
  have "buildFixedConditionVectorTemplate_loop (e # m) acc = Inr t"
    using lt t(1) by (simp add: Let_def acc'_def)
  moreover have "\<forall>i. bit t i \<longleftrightarrow> bit acc i \<or> (i, True) \<in> set (e # m)"
  proof
    fix i
    have "(i, True) = e \<longleftrightarrow> i = fst e \<and> snd e" by (cases e) auto
    then show "bit t i \<longleftrightarrow> bit acc i \<or> (i, True) \<in> set (e # m)" using t(2) b by auto
  qed
  ultimately show ?case by blast
qed

lemma template_bits:
  assumes "\<forall>e \<in> set m. fst e < 32"
  shows "\<exists>t. buildFixedConditionVectorTemplate m = Inr t \<and> (\<forall>i. bit t i \<longleftrightarrow> (i, True) \<in> set m)"
  using template_loop_bits[OF assms, of 0] by (simp add: buildFixedConditionVectorTemplate_def)

lemma variants_rec:
  assumes "\<forall>b \<in> set (drop idx offs). b < 32 \<and> \<not> bit cv b" and "distinct (drop idx offs)"
  shows "\<exists>vs. buildCanonicalConditionVectorVariantsRecursively cv offs idx result = Inr (result @ vs)
           \<and> distinct vs \<and> length vs = 2 ^ (length offs - idx)
           \<and> set vs = {w. \<forall>i. i \<notin> set (drop idx offs) \<longrightarrow> bit w i = bit cv i}"
  using assms
proof (induction "length offs - idx" arbitrary: idx cv result)
  case 0
  then have ge: "\<not> idx < length offs" by simp
  then have d: "drop idx offs = []" by simp
  have "{w. \<forall>i. bit w i = bit cv i} = {cv}" by (auto simp: bit_eq_iff)
  then show ?case using ge 0(1)
    by (subst buildCanonicalConditionVectorVariantsRecursively.simps) (simp add: d)
next
  case (Suc n)
  then have lt: "idx < length offs" by simp
  define b where "b = offs ! idx"
  have dr: "drop idx offs = b # drop (Suc idx) offs" unfolding b_def using lt by (rule Cons_nth_drop_Suc[symmetric])
  have b32: "b < 32" and bz: "\<not> bit cv b" using Suc(3) unfolding dr by simp_all
  have bnot: "b \<notin> set (drop (Suc idx) offs)" and dist': "distinct (drop (Suc idx) offs)"
    using Suc(4) unfolding dr by simp_all
  define tb where "tb = (2 ^ b :: 32 word)"
  have tbit: "bit tb i \<longleftrightarrow> i = b" for i using b32 by (simp add: tb_def bit_single_32)
  have assert: "cv AND NOT tb = cv"
    by (rule bit_eqI) (use bz in \<open>auto simp: bit_and_iff bit_not_iff tbit\<close>)
  have h1: "\<forall>x \<in> set (drop (Suc idx) offs). x < 32 \<and> \<not> bit (cv OR tb) x"
    using Suc(3) bnot unfolding dr by (auto simp: bit_or_iff tbit)
  have h2: "\<forall>x \<in> set (drop (Suc idx) offs). x < 32 \<and> \<not> bit cv x"
    using Suc(3) unfolding dr by simp
  have n: "n = length offs - Suc idx" using Suc(2) by simp
  from Suc(1)[OF n h1 dist', of result] obtain vs1 where v1:
    "buildCanonicalConditionVectorVariantsRecursively (cv OR tb) offs (Suc idx) result = Inr (result @ vs1)"
    "distinct vs1" "length vs1 = 2 ^ (length offs - Suc idx)"
    "set vs1 = {w. \<forall>i. i \<notin> set (drop (Suc idx) offs) \<longrightarrow> bit w i = bit (cv OR tb) i}" by blast
  from Suc(1)[OF n h2 dist', of "result @ vs1"] obtain vs2 where v2:
    "buildCanonicalConditionVectorVariantsRecursively cv offs (Suc idx) (result @ vs1) = Inr ((result @ vs1) @ vs2)"
    "distinct vs2" "length vs2 = 2 ^ (length offs - Suc idx)"
    "set vs2 = {w. \<forall>i. i \<notin> set (drop (Suc idx) offs) \<longrightarrow> bit w i = bit cv i}" by blast
  have run: "buildCanonicalConditionVectorVariantsRecursively cv offs idx result = Inr (result @ vs1 @ vs2)"
    using lt b32 assert v1(1) v2(1)
    by (subst buildCanonicalConditionVectorVariantsRecursively.simps)
       (simp add: Let_def b_def[symmetric] tb_def[symmetric])
  have in1: "w \<in> set vs1 \<Longrightarrow> bit w b" for w
    using bnot unfolding v1(4) by (auto simp: bit_or_iff tbit)
  have in2: "w \<in> set vs2 \<Longrightarrow> \<not> bit w b" for w
    using bnot bz unfolding v2(4) by auto
  have dist: "distinct (vs1 @ vs2)" using v1(2) v2(2) in1 in2 by auto
  have len: "length (vs1 @ vs2) = 2 ^ (length offs - idx)"
  proof -
    have "length offs - idx = Suc (length offs - Suc idx)" using lt by simp
    then show ?thesis using v1(3) v2(3) by simp
  qed
  have set: "set (vs1 @ vs2) = {w. \<forall>i. i \<notin> set (drop idx offs) \<longrightarrow> bit w i = bit cv i}"
  proof (intro equalityI subsetI)
    fix w assume "w \<in> set (vs1 @ vs2)"
    then consider "w \<in> set vs1" | "w \<in> set vs2" by auto
    then show "w \<in> {w. \<forall>i. i \<notin> set (drop idx offs) \<longrightarrow> bit w i = bit cv i}"
    proof cases
      case 1
      then show ?thesis unfolding v1(4) dr by (auto simp: bit_or_iff tbit)
    next
      case 2
      then show ?thesis unfolding v2(4) dr by auto
    qed
  next
    fix w :: "32 word"
    assume "w \<in> {w. \<forall>i. i \<notin> set (drop idx offs) \<longrightarrow> bit w i = bit cv i}"
    then have w: "\<And>i. i \<noteq> b \<Longrightarrow> i \<notin> set (drop (Suc idx) offs) \<Longrightarrow> bit w i = bit cv i"
      unfolding dr by simp
    show "w \<in> set (vs1 @ vs2)"
    proof (cases "bit w b")
      case True
      have "\<forall>i. i \<notin> set (drop (Suc idx) offs) \<longrightarrow> bit w i = bit (cv OR tb) i"
      proof (intro allI impI)
        fix i assume ni: "i \<notin> set (drop (Suc idx) offs)"
        show "bit w i = bit (cv OR tb) i"
        proof (cases "i = b")
          case True
          then show ?thesis using \<open>bit w b\<close> by (simp add: bit_or_iff tbit)
        next
          case False
          then show ?thesis using w[OF False ni] by (simp add: bit_or_iff tbit)
        qed
      qed
      then have "w \<in> set vs1" unfolding v1(4) by simp
      then show ?thesis by simp
    next
      case False
      have "\<forall>i. i \<notin> set (drop (Suc idx) offs) \<longrightarrow> bit w i = bit cv i"
      proof (intro allI impI)
        fix i assume ni: "i \<notin> set (drop (Suc idx) offs)"
        show "bit w i = bit cv i"
        proof (cases "i = b")
          case True
          then show ?thesis using \<open>\<not> bit w b\<close> bz by simp
        next
          case False
          then show ?thesis using w[OF False ni] by simp
        qed
      qed
      then have "w \<in> set vs2" unfolding v2(4) by simp
      then show ?thesis by simp
    qed
  qed
  from run dist len set show ?case by blast
qed

lemma variableBits_filter:
  "set (filter (\<lambda>i. map_of m i = None) [0..<numNodes]) = variableBits numNodes m"
  by (auto simp: variableBits_def map_of_eq_None_iff)

lemma fixed_bit_value:
  assumes "distinct (map fst m)" "(b, v) \<in> set m"
  shows "(b, True) \<in> set m \<longleftrightarrow> v"
proof
  assume "(b, True) \<in> set m"
  then have "map_of m b = Some True" using assms(1) by (simp add: map_of_is_SomeI)
  moreover have "map_of m b = Some v" using assms by (simp add: map_of_is_SomeI)
  ultimately show v by simp
next
  assume v
  then show "(b, True) \<in> set m" using assms(2) by simp
qed

lemma conditionVectorVariants_result:
  assumes n: "numNodes < 32" and keys: "\<forall>e \<in> set m. fst e < numNodes" and dist: "distinct (map fst m)"
  shows "\<exists>t vs. buildFixedConditionVectorTemplate m = Inr t
           \<and> (\<forall>i. bit t i \<longleftrightarrow> (i, True) \<in> set m)
           \<and> buildCanonicalConditionVectorVariants numNodes t m [] = Inr vs
           \<and> conditionVectorVariants numNodes m = Inr vs
           \<and> distinct vs \<and> length vs = 2 ^ card (variableBits numNodes m)
           \<and> set vs = {w :: 32 word. \<forall>i. i \<notin> variableBits numNodes m \<longrightarrow> bit w i = bit t i}"
proof -
  have "\<forall>e \<in> set m. fst e < 32" using keys n by auto
  from template_bits[OF this] obtain t where
    t: "buildFixedConditionVectorTemplate m = Inr t" "\<forall>i. bit t i \<longleftrightarrow> (i, True) \<in> set m" by blast
  define offs where "offs = filter (\<lambda>i. map_of m i = None) [0..<numNodes]"
  have so: "set offs = variableBits numNodes m" unfolding offs_def by (rule variableBits_filter)
  have d: "distinct offs" by (simp add: offs_def)
  have lo: "length offs = card (variableBits numNodes m)" using distinct_card[OF d] so by simp
  have le: "length offs \<le> numNodes" using length_filter_le[of _ "[0..<numNodes]"] by (simp add: offs_def)
  have hz: "\<forall>b \<in> set (drop 0 offs). b < 32 \<and> \<not> bit t b"
  proof
    fix b assume "b \<in> set (drop 0 offs)"
    then have b: "b < numNodes" "b \<notin> fst ` set m" using so by (simp_all add: variableBits_def)
    have "\<not> bit t b" using t(2) b(2) by force
    with b(1) n show "b < 32 \<and> \<not> bit t b" by simp
  qed
  from variants_rec[OF hz, of "[]"] d obtain vs0 where v0:
    "buildCanonicalConditionVectorVariantsRecursively t offs 0 [] = Inr vs0"
    "distinct vs0" "length vs0 = 2 ^ length offs"
    "set vs0 = {w. \<forall>i. i \<notin> set offs \<longrightarrow> bit w i = bit t i}" by auto
  have "\<exists>vs. buildCanonicalConditionVectorVariants numNodes t m [] = Inr vs
      \<and> distinct vs \<and> length vs = 2 ^ length offs
      \<and> set vs = {w. \<forall>i. i \<notin> set offs \<longrightarrow> bit w i = bit t i}"
  proof (cases "offs = []")
    case True
    have "{w. \<forall>i. bit w i = bit t i} = {t}" by (auto simp: bit_eq_iff)
    then show ?thesis
      using True by (simp add: buildCanonicalConditionVectorVariants_def Let_def offs_def[symmetric])
  next
    case False
    have "length offs < 32" using le n by simp
    then have "(2::nat) ^ length offs < 2 ^ 32" by (rule power_strict_increasing) simp
    then have "PowerOf2 (length offs) mod 2 ^ 32 = 2 ^ length offs" by (simp add: PowerOf2_def)
    then show ?thesis
      using False v0
      by (simp add: buildCanonicalConditionVectorVariants_def Let_def offs_def[symmetric])
  qed
  then obtain vs where vs: "buildCanonicalConditionVectorVariants numNodes t m [] = Inr vs"
    "distinct vs" "length vs = 2 ^ length offs"
    "set vs = {w. \<forall>i. i \<notin> set offs \<longrightarrow> bit w i = bit t i}" by blast
  have "conditionVectorVariants numNodes m = Inr vs" by (simp add: conditionVectorVariants_def t(1) vs(1))
  with t vs show ?thesis unfolding so lo by blast
qed

lemma variants_as_or:
  assumes "\<forall>i \<in> V. \<not> bit (t :: 32 word) i"
  shows "{w :: 32 word. \<forall>i. i \<notin> V \<longrightarrow> bit w i = bit t i} = (\<lambda>s. t OR s) ` {s. \<forall>i. bit s i \<longrightarrow> i \<in> V}"
proof (intro equalityI subsetI)
  fix w :: "32 word"
  assume "w \<in> {w :: 32 word. \<forall>i. i \<notin> V \<longrightarrow> bit w i = bit t i}"
  then have w: "\<And>i. i \<notin> V \<Longrightarrow> bit w i = bit t i" by simp
  define s where "s = w AND NOT t"
  have sb: "bit s i \<longleftrightarrow> bit w i \<and> \<not> bit t i" for i
    by (auto simp: s_def bit_and_iff bit_not_iff dest: bit_imp_possible_bit)
  have "\<forall>i. bit s i \<longrightarrow> i \<in> V" using w sb by blast
  moreover have "w = t OR s"
  proof (rule bit_eqI)
    fix i
    show "bit w i = bit (t OR s) i" using w[of i] assms sb[of i] by (auto simp: bit_or_iff)
  qed
  ultimately show "w \<in> (\<lambda>s. t OR s) ` {s. \<forall>i. bit s i \<longrightarrow> i \<in> V}" by blast
next
  fix w :: "32 word"
  assume "w \<in> (\<lambda>s. t OR s) ` {s. \<forall>i. bit s i \<longrightarrow> i \<in> V}"
  then obtain s where s: "w = t OR s" "\<forall>i. bit s i \<longrightarrow> i \<in> V" by blast
  then show "w \<in> {w :: 32 word. \<forall>i. i \<notin> V \<longrightarrow> bit w i = bit t i}" by (auto simp: bit_or_iff)
qed

lemma variants_as_match:
  assumes keys: "\<forall>e \<in> set m. fst e < numNodes" and dist: "distinct (map fst m)"
    and t: "\<forall>i. bit (t :: 32 word) i \<longleftrightarrow> (i, True) \<in> set m"
  shows "{w :: 32 word. \<forall>i. i \<notin> variableBits numNodes m \<longrightarrow> bit w i = bit t i}
       = {w :: 32 word. (\<forall>i. bit w i \<longrightarrow> i < numNodes) \<and> path_matches (bit w) m}"
proof (intro equalityI subsetI)
  fix w :: "32 word"
  assume "w \<in> {w :: 32 word. \<forall>i. i \<notin> variableBits numNodes m \<longrightarrow> bit w i = bit t i}"
  then have w: "\<And>i. i \<notin> variableBits numNodes m \<Longrightarrow> bit w i = bit t i" by simp
  have tk: "bit t i \<Longrightarrow> i < numNodes" for i using t keys by force
  have hi: "\<forall>i. bit w i \<longrightarrow> i < numNodes"
  proof (intro allI impI)
    fix i assume bw: "bit w i"
    show "i < numNodes"
    proof (cases "i \<in> variableBits numNodes m")
      case True then show ?thesis by (simp add: variableBits_def)
    next
      case False then show ?thesis using w[OF False] bw tk by simp
    qed
  qed
  have "path_matches (bit w) m" unfolding path_matches_def list_all_iff
  proof
    fix e assume e: "e \<in> set m"
    then have "fst e \<notin> variableBits numNodes m" by (auto simp: variableBits_def)
    then have "bit w (fst e) = bit t (fst e)" by (rule w)
    also have "\<dots> = snd e" using fixed_bit_value[OF dist, of "fst e" "snd e"] e t by simp
    finally show "bit w (fst e) = snd e" .
  qed
  with hi show "w \<in> {w :: 32 word. (\<forall>i. bit w i \<longrightarrow> i < numNodes) \<and> path_matches (bit w) m}" by simp
next
  fix w :: "32 word"
  assume "w \<in> {w :: 32 word. (\<forall>i. bit w i \<longrightarrow> i < numNodes) \<and> path_matches (bit w) m}"
  then have hi: "\<And>i. bit w i \<Longrightarrow> i < numNodes" and pm: "path_matches (bit w) m" by simp_all
  have "\<forall>i. i \<notin> variableBits numNodes m \<longrightarrow> bit w i = bit t i"
  proof (intro allI impI)
    fix i assume ni: "i \<notin> variableBits numNodes m"
    show "bit w i = bit t i"
    proof (cases "i < numNodes")
      case False
      then have "\<not> bit w i" using hi by blast
      moreover have "\<not> bit t i" using t keys False by force
      ultimately show ?thesis by simp
    next
      case True
      then have "i \<in> fst ` set m" using ni by (simp add: variableBits_def)
      then obtain v where v: "(i, v) \<in> set m" by force
      then have "bit w i = v" using pm unfolding path_matches_def list_all_iff by force
      moreover have "bit t i = v" using fixed_bit_value[OF dist v] t by simp
      ultimately show ?thesis by simp
    qed
  qed
  then show "w \<in> {w :: 32 word. \<forall>i. i \<notin> variableBits numNodes m \<longrightarrow> bit w i = bit t i}" by simp
qed

lemma word_below_power_bits:
  "{w :: 32 word. \<forall>i. bit w i \<longrightarrow> i < n} = {w. unat w < 2 ^ n}"
proof -
  have "unat w < 2 ^ n \<longleftrightarrow> (\<forall>i. bit w i \<longrightarrow> i < n)" for w :: "32 word"
  proof -
    have "unat w < 2 ^ n \<longleftrightarrow> take_bit n (unat w) = unat w" by (simp add: take_bit_nat_eq_self_iff)
    also have "\<dots> \<longleftrightarrow> (\<forall>i. bit (take_bit n (unat w)) i = bit (unat w) i)" by (simp add: bit_eq_iff)
    also have "\<dots> \<longleftrightarrow> (\<forall>i. bit (unat w) i \<longrightarrow> i < n)" by (auto simp: bit_take_bit_iff)
    also have "\<dots> \<longleftrightarrow> (\<forall>i. bit w i \<longrightarrow> i < n)" by (simp add: bit_unsigned_iff)
    finally show ?thesis .
  qed
  then show ?thesis by auto
qed

lemma variableBits_card:
  assumes "\<forall>e \<in> set m. fst e < numNodes" "distinct (map fst m)"
  shows "card (variableBits numNodes m) = numNodes - length m"
proof -
  have "variableBits numNodes m = {..<numNodes} - fst ` set m" by (auto simp: variableBits_def)
  moreover have "fst ` set m \<subseteq> {..<numNodes}" using assms(1) by auto
  moreover have "card (fst ` set m) = length m" using distinct_card[OF assms(2)] by simp
  ultimately show ?thesis by (simp add: card_Diff_subset)
qed

lemma descriptors_result:
  assumes "perfect_tree tree D" and "Log2 (R + 1) + k \<le> D"
    and "emitComputeConditionVector tree R k (TreeNodes k) [] = Inr (code, offs)"
  shows "buildSubtreeLeafNodePathsBitsMapsRecursively tree R k offs result =
     Inr (result @ map (\<lambda>d. (getNodeIdxForSubtreeBitOffset R k (fst d), snd d)) (leafPaths 0 k))"
proof -
  have "Log2 (0 + 1) + k \<le> k" by (simp add: Log2_1)
  from buildPaths_result[OF assms(1,2) bitOffsets_result[OF assms] this, of result]
  show ?thesis by (simp add: getNodeIdx_root)
qed

lemma leafPaths_descriptor:
  assumes "i < length (leafPaths 0 k)"
  shows "length (snd (leafPaths 0 k ! i)) = k \<and> distinct (map fst (snd (leafPaths 0 k ! i)))
       \<and> (\<forall>e \<in> set (snd (leafPaths 0 k ! i)). fst e < 2 ^ k - 1)"
proof -
  have "leafPaths 0 k ! i \<in> set (leafPaths 0 k)" using assms by simp
  from leafPaths_keys[OF this] show ?thesis by (auto simp: subtreeNodes_root0)
qed

lemma small_switch: "k \<le> 5 \<Longrightarrow> (2::nat) ^ k - 1 < 32"
proof -
  assume "k \<le> 5"
  then have "(2::nat) ^ k \<le> 2 ^ 5" by (rule power_increasing) simp
  then show ?thesis by simp
qed

section \<open>Evaluation of the emitter on examples\<close>

lemmas emit_eval_simps =
  emitComputeConditionVector_def TreeNodes_def PowerOf2_def map_at_def
  getNodeIdxForSubtreeBitOffset_def Log2.simps emitSingleNodeEvaluaton_def emitOperator_def
  emitComparison_def APInt_def buildFixedConditionVectorTemplate_def
  buildCanonicalConditionVectorVariants_def ConstantInt_get_def returnTy_def Let_def
  emitSubtreeEvaluation_def compileEvaluators_nodes.simps compileEvaluators_levels.simps
  getNumCompiledEvaluators_loop.simps markLeafPaths.simps
  buildCanonicalConditionVectorVariantsRecursively.simps
  buildSubtreeLeafNodePathsBitsMapsRecursively.simps emitComputeConditionVector_loop.simps

lemma example_tree1_perfect: "perfect_tree example_tree1 1"
  by (auto simp: perfect_tree_def example_tree1_def)

lemma evaluatorRoots_1_1: "evaluatorRoots 1 1 = {0}"
  by (auto simp: evaluatorRoots_def)

lemma example_tree2_perfect: "perfect_tree example_tree2 2"
  by (auto simp: perfect_tree_def example_tree2_def)

lemma example_tree2_bitOffsets:
  "emitComputeConditionVector example_tree2 0 2 (TreeNodes 2) [] =
     Inr ([(FCmp FCMP_OLT (LoadFeature 0) (Finite (1 / 2)), ConstantInt 6 0),
           (FCmp FCMP_OGT (LoadFeature 1) (Finite (1 / 2)), ConstantInt 6 1),
           (FCmp FCMP_OLT (CallSqrt (LoadFeature 2)) (Finite (1 / 2)), ConstantInt 6 2)],
          [(0, 0), (1, 1), (2, 2)])"
  by (simp add: example_tree2_def emit_eval_simps)

lemma example_tree2_paths:
  "buildSubtreeLeafNodePathsBitsMapsRecursively example_tree2 0 2 [(0, 0), (1, 1), (2, 2)] [] =
     Inr [(6, [(2, True), (0, True)]), (5, [(2, False), (0, True)]),
          (4, [(1, True), (0, False)]), (3, [(1, False), (0, False)])]"
  by (simp add: example_tree2_def emit_eval_simps)

lemma example_tree2_variants:
  "conditionVectorVariants 3 [(2, True), (0, True)] = Inr [7, 5]"
  "conditionVectorVariants 3 [(2, False), (0, True)] = Inr [3, 1]"
  "conditionVectorVariants 3 [(1, True), (0, False)] = Inr [6, 2]"
  "conditionVectorVariants 3 [(1, False), (0, False)] = Inr [4, 0]"
  by (simp_all add: conditionVectorVariants_def buildFixedConditionVectorTemplate_def
      buildCanonicalConditionVectorVariants_def Let_def PowerOf2_def
      buildCanonicalConditionVectorVariantsRecursively.simps upt_rec)

lemma example_tree6_perfect: "perfect_tree example_tree6 6"
proof -
  have "map fst example_tree6 = [0..<63]"
    unfolding example_tree6_def by (simp add: comp_def del: upt.simps)
  moreover have "set [0..<63] = {..<2 ^ 6 - 1}" by auto
  moreover have "list_all (\<lambda>entry. TrueChildNodeIdx (snd entry) = 2 * fst entry + 2
                      \<and> FalseChildNodeIdx (snd entry) = 2 * fst entry + 1) example_tree6"
    unfolding example_tree6_def list_all_iff by auto
  ultimately show ?thesis unfolding perfect_tree_def by (simp del: upt.simps)
qed

lemma leafPaths_nonempty: "leafPaths b r \<noteq> []"
  using leafPaths_length[of b r] by (metis length_0_conv power_not_zero zero_neq_numeral)

lemma leafPaths_hd:
  "hd (leafPaths b 0) = (b, [])"
  "hd (leafPaths b (Suc r)) = markPath b True (hd (leafPaths (2 * b + 2) r))"
  by (simp_all add: leafPaths_nonempty hd_map)

lemma first_descriptor_6:
  "snd (hd (leafPaths 0 6)) = [(62, True), (30, True), (14, True), (6, True), (2, True), (0, True)]"
  by (simp add: eval_nat_numeral leafPaths_hd markPath_def del: leafPaths.simps)

section \<open>Claim C6: types of the condition vector and of the case constants\<close>

text \<open>
  Claim C6, at the failing input: a switch over one level (one internal node). The
  condition vector has the 64-bit type; the two case constants have the type of
  \<open>numNodes + 1 = 2\<close> bits, not the type of the value that is switched on.
\<close>

theorem emitted_switch_types_example:
  "emitSubtreeSwitchesRecursively example_tree1 0 1 0 =
     Inr (SubtreeSwitch 64
            [(FCmp FCMP_OLT (LoadFeature 0) (Finite (1 / 2)), ConstantInt 6 0)]
            [([ConstantInt 2 1], StoreConstant (ConstantInt 64 2)),
             ([ConstantInt 2 0], StoreConstant (ConstantInt 64 1))])
   \<and> TreeNodes 1 + 1 = 2"
  by (simp add: example_tree1_def emit_eval_simps)

section \<open>Claim C7: a function that fails verification\<close>

text \<open>
  Claim C7, at the failing input: the evaluator emitted for the tree of depth 1 is
  rejected by the verifier, and \<^const>\<open>compileEvaluators\<close> still submits the module
  and returns the evaluator map.
\<close>

theorem verification_failure_ignored_example:
  "\<exists>body evaluators.
      emitSubtreeEvaluation example_tree1 0 1 1 = Inr body
    \<and> verifyFunction (0, body)
    \<and> compileEvaluators intr example_tree1 1 1 1 = Inr evaluators
    \<and> map fst evaluators = [0]"
  by (simp add: example_tree1_def emit_eval_simps verifyFunction_def compileEvaluators_def
      getNumCompiledEvaluators_def submitModule_def getEvaluatorFnPtr_def)

section \<open>Claim C5: run terminates with a leaf index\<close>

text \<open>
  Claim C5. For a perfect tree of depth \<open>D\<close> with \<open>N = 2^D - 1\<close> internal nodes, a
  positive function depth that divides \<open>D\<close>, and evaluators that satisfy the contract
  of the compiled artifact, \<^const>\<open>run\<close> returns (its loop ends), and the index it
  returns lies in the leaf range from \<open>N\<close> up to, and not including, \<open>N + 2^D\<close>.
\<close>

theorem run_returns_leaf:
  assumes "perfect_tree tree D" and "0 < functionDepth" and "functionDepth dvd D"
    and "artifact_contract CompiledEvaluators D functionDepth dataSet"
  shows "\<exists>idx. run CompiledEvaluators tree dataSet = Some (Inr idx)
           \<and> 2 ^ D - 1 \<le> idx \<and> idx < 2 ^ D - 1 + 2 ^ D"
proof -
  have keys: "set (map fst CompiledEvaluators) = evaluatorRoots D functionDepth"
    and desc: "evaluators_descend CompiledEvaluators functionDepth dataSet"
    using assms(4) by (simp_all add: artifact_contract_def)
  have "functionDepth dvd Log2 (0 + 1)" "Log2 (0 + 1) \<le> D" by (simp_all add: Log2_1)
  from run_loop_terminates[OF assms(2,3) keys desc this] obtain j where
    j: "run_loop CompiledEvaluators (2 ^ D - 1) dataSet 0 = Some (Inr j)" "Log2 (j + 1) = D" by blast
  from j(1) have "run CompiledEvaluators tree dataSet = Some (Inr j)"
    by (simp add: run_def perfect_tree_length[OF assms(1)])
  with leaf_range_level[OF j(2)] show ?thesis by blast
qed

theorem run_returns_leaf_witness:
  "perfect_tree example_tree1 1 \<and> (0::nat) < 1 \<and> (1::nat) dvd 1
   \<and> artifact_contract [(0, \<lambda>data. Some 2)] 1 1 []
   \<and> (\<exists>idx. run [(0, \<lambda>data. Some 2)] example_tree1 [] = Some (Inr idx)
           \<and> 2 ^ 1 - 1 \<le> idx \<and> idx < 2 ^ 1 - 1 + 2 ^ 1)"
proof -
  have c: "artifact_contract [(0, \<lambda>data. Some 2)] 1 1 []"
    unfolding artifact_contract_def evaluatorRoots_1_1 evaluators_descend_def by simp
  have p: "(0::nat) < 1" and d: "(1::nat) dvd 1" by simp_all
  from run_returns_leaf[OF example_tree1_perfect p d c] example_tree1_perfect p d c
  show ?thesis by blast
qed

section \<open>Claim C10: the lookup in the loop of run\<close>

text \<open>
  Claim C10. Let the evaluator map come from \<^const>\<open>compileEvaluators\<close> or from
  \<^const>\<open>loadEvaluators\<close>, for a perfect tree of depth \<open>D\<close> and a positive function
  depth that divides \<open>D\<close>, and let every evaluator return a node that lies
  \<open>functionDepth\<close> levels below its own. Then every index that the loop of
  \<^const>\<open>run\<close> reaches below \<open>tree.size()\<close> lies on a level that is a multiple of
  \<open>functionDepth\<close> and is a key of the map, so the lookup succeeds, and the run
  returns a result and no error.
\<close>

theorem run_lookup_never_fails:
  assumes "perfect_tree tree D" and "0 < functionDepth" and "functionDepth dvd D"
    and "compileEvaluators intr tree D functionDepth switchDepth = Inr CompiledEvaluators
         \<or> loadEvaluators TheCompiler D functionDepth = Inr CompiledEvaluators"
    and "evaluators_descend CompiledEvaluators functionDepth dataSet"
    and "reached CompiledEvaluators (length tree) dataSet idx" and "idx < length tree"
  shows "functionDepth dvd Log2 (idx + 1)
       \<and> idx \<in> set (map fst CompiledEvaluators)
       \<and> (\<exists>compiledEvaluator. map_at CompiledEvaluators idx = Inr compiledEvaluator)
       \<and> (\<exists>leaf. run CompiledEvaluators tree dataSet = Some (Inr leaf))"
proof -
  have keys: "set (map fst CompiledEvaluators) = evaluatorRoots D functionDepth"
    using assms(4) compileEvaluators_Inr loadEvaluators_Inr by blast
  have len: "length tree = 2 ^ D - 1" by (rule perfect_tree_length[OF assms(1)])
  have r: "reached CompiledEvaluators (2 ^ D - 1) dataSet idx" using assms(6) len by simp
  from reached_level[OF assms(2,3) keys assms(5) r]
  have lv: "functionDepth dvd Log2 (idx + 1)" by simp
  have "idx < 2 ^ D - 1" using assms(7) len by simp
  then have "Log2 (idx + 1) < D" using internal_iff_level[of idx D] by simp
  with lv have mem: "idx \<in> set (map fst CompiledEvaluators)" unfolding keys
    using internal_iff_level[of idx D] by (simp add: evaluatorRoots_def)
  from map_at_key[OF mem] have at: "\<exists>f. map_at CompiledEvaluators idx = Inr f" by blast
  have "functionDepth dvd Log2 (0 + 1)" "Log2 (0 + 1) \<le> D" by (simp_all add: Log2_1)
  from run_loop_terminates[OF assms(2,3) keys assms(5) this]
  have "\<exists>leaf. run CompiledEvaluators tree dataSet = Some (Inr leaf)"
    by (auto simp: run_def len)
  with lv mem at show ?thesis by blast
qed

theorem run_lookup_never_fails_witness:
  "perfect_tree example_tree1 1 \<and> (0::nat) < 1 \<and> (1::nat) dvd 1
   \<and> loadEvaluators [(0, \<lambda>data. Some 2)] 1 1 = Inr [(0, \<lambda>data. Some 2)]
   \<and> evaluators_descend [(0, \<lambda>data. Some 2)] 1 []
   \<and> reached [(0, \<lambda>data. Some 2)] (length example_tree1) [] 0 \<and> 0 < length example_tree1
   \<and> (1::nat) dvd Log2 (0 + 1) \<and> map_at [(0, \<lambda>data. Some (2::nat))] (0::nat) = Inr (\<lambda>data. Some 2)"
proof -
  have l: "loadEvaluators [(0, \<lambda>data. Some 2)] 1 1 = Inr [(0, \<lambda>data. Some 2)]"
    by (simp add: loadEvaluators_def getNumCompiledEvaluators_def getNumCompiledEvaluators_loop.simps
        loadEvaluators_levels.simps loadEvaluators_offsets.simps TreeNodes_def PowerOf2_def
        getEvaluatorFnPtr_def Let_def)
  have e: "evaluators_descend [(0, \<lambda>data. Some 2)] 1 []" by (simp add: evaluators_descend_def)
  have r: "reached [(0, \<lambda>data. Some 2)] (length example_tree1) [] 0" by (rule reached_start)
  have n: "0 < length example_tree1" by (simp add: example_tree1_def)
  have p: "(0::nat) < 1" and d: "(1::nat) dvd 1" by simp_all
  have m: "map_at [(0, \<lambda>data. Some (2::nat))] (0::nat) = Inr (\<lambda>data. Some 2)" by (simp add: map_at_def)
  from run_lookup_never_fails[OF example_tree1_perfect p d disjI2[OF l] e r n]
  have "(1::nat) dvd Log2 (0 + 1)" by blast
  with example_tree1_perfect p d l e r n m show ?thesis by blast
qed

section \<open>Claim C3: the leaf descriptors of a subtree\<close>

text \<open>
  Claim C3. Take a subtree of \<open>k\<close> levels rooted at \<open>R\<close> inside a perfect tree, and
  the bit offsets that \<^const>\<open>emitComputeConditionVector\<close> assigns to its nodes. Called
  with \<open>remainingLevels = k\<close>, the builder appends exactly \<open>2^k\<close> leaf descriptors to the
  result, whose leaves come in the recursive true-first, false-second order. The map of
  each descriptor has exactly \<open>k\<close> entries, with distinct keys, each the bit offset of an
  ancestor of the leaf inside the subtree. The maps are pairwise distinct, and every
  assignment of truth values to the bit offsets agrees with exactly one descriptor on the
  descriptor's own bits: the descriptors realize the \<open>2^k\<close> distinct combinations.
\<close>

theorem buildSubtreeLeafNodePaths_descriptors:
  assumes "perfect_tree tree D" and "Log2 (R + 1) + k \<le> D"
    and "emitComputeConditionVector tree R k (TreeNodes k) [] = Inr (code, nodeIdxBitOffsets)"
  shows "\<exists>ds. buildSubtreeLeafNodePathsBitsMapsRecursively tree R k nodeIdxBitOffsets result
                = Inr (result @ ds)
           \<and> length ds = 2 ^ k
           \<and> map fst ds = subtreeLeavesTrueFirst R k
           \<and> (\<forall>d \<in> set ds. length (snd d) = k \<and> distinct (map fst (snd d))
                 \<and> (\<forall>b \<in> set (map fst (snd d)).
                       b < 2 ^ k - 1 \<and> ancestor (getNodeIdxForSubtreeBitOffset R k b) (fst d)))
           \<and> distinct (map snd ds)
           \<and> (\<forall>c. \<exists>!i. i < length ds \<and> path_matches c (snd (ds ! i)))"
proof -
  let ?g = "getNodeIdxForSubtreeBitOffset R k"
  define ds where "ds = map (\<lambda>d. (?g (fst d), snd d)) (leafPaths 0 k)"
  have "Log2 (0 + 1) + k \<le> k" by (simp add: Log2_1)
  from buildPaths_result[OF assms(1,2) bitOffsets_result[OF assms] this, of result]
  have build: "buildSubtreeLeafNodePathsBitsMapsRecursively tree R k nodeIdxBitOffsets result
      = Inr (result @ ds)" by (simp add: getNodeIdx_root ds_def)
  have len: "length ds = 2 ^ k" by (simp add: ds_def leafPaths_length)
  have snd_ds: "map snd ds = map snd (leafPaths 0 k)" by (simp add: ds_def comp_def)
  have nth_snd: "snd (ds ! i) = snd (leafPaths 0 k ! i)" if "i < length ds" for i
    using that by (simp add: ds_def)
  have leaves: "map fst ds = subtreeLeavesTrueFirst R k"
  proof -
    have "map fst ds = map ?g (map fst (leafPaths 0 k))" by (simp add: ds_def comp_def)
    then show ?thesis by (simp add: leafPaths_leaves getNodeIdx_leavesTrueFirst)
  qed
  have each: "\<forall>d \<in> set ds. length (snd d) = k \<and> distinct (map fst (snd d))
                 \<and> (\<forall>b \<in> set (map fst (snd d)). b < 2 ^ k - 1 \<and> ancestor (?g b) (fst d))"
  proof
    fix d assume "d \<in> set ds"
    then obtain d0 where d0: "d0 \<in> set (leafPaths 0 k)" "d = (?g (fst d0), snd d0)"
      by (auto simp: ds_def)
    note ks = leafPaths_keys[OF d0(1)]
    have "\<forall>b \<in> set (map fst (snd d)). b < 2 ^ k - 1 \<and> ancestor (?g b) (fst d)"
    proof
      fix b assume b: "b \<in> set (map fst (snd d))"
      then have b0: "b \<in> set (map fst (snd d0))" by (simp add: d0(2))
      then have "b \<in> subtreeNodes 0 k" using ks by blast
      then have lt: "b < 2 ^ k - 1" by (simp add: subtreeNodes_root0)
      from ks b0 obtain l where l: "0 < l" "fst d0 \<in> set (subtreeLevel b l)" by blast
      then have "?g (fst d0) \<in> set (map ?g (subtreeLevel b l))" by simp
      then have "?g (fst d0) \<in> set (subtreeLevel (?g b) l)" by (simp only: getNodeIdx_subtreeLevel)
      then have "ancestor (?g b) (fst d)" using l(1) by (auto simp: ancestor_def d0(2))
      with lt show "b < 2 ^ k - 1 \<and> ancestor (?g b) (fst d)" by simp
    qed
    then show "length (snd d) = k \<and> distinct (map fst (snd d))
                 \<and> (\<forall>b \<in> set (map fst (snd d)). b < 2 ^ k - 1 \<and> ancestor (?g b) (fst d))"
      using ks by (simp add: d0(2))
  qed
  have uniq: "\<exists>!i. i < length ds \<and> path_matches c (snd (ds ! i))" for c
  proof -
    from leafPaths_unique_match[of 0 k c] obtain i where
      i: "i < length (leafPaths 0 k)" "path_matches c (snd (leafPaths 0 k ! i))"
      and u: "\<And>j. j < length (leafPaths 0 k) \<and> path_matches c (snd (leafPaths 0 k ! j)) \<Longrightarrow> j = i"
      by blast
    have l: "length ds = length (leafPaths 0 k)" by (simp add: ds_def)
    show ?thesis
    proof (rule ex1I[of _ i])
      show "i < length ds \<and> path_matches c (snd (ds ! i))" using i l nth_snd by simp
    next
      fix j assume j: "j < length ds \<and> path_matches c (snd (ds ! j))"
      then have "snd (ds ! j) = snd (leafPaths 0 k ! j)" using nth_snd[of j] by simp
      with j l show "j = i" using u[of j] by simp
    qed
  qed
  have dist: "distinct (map snd ds)"
    unfolding distinct_conv_nth
  proof (intro allI impI)
    fix i j assume i: "i < length (map snd ds)" and j: "j < length (map snd ds)" and ne: "i \<noteq> j"
    show "map snd ds ! i \<noteq> map snd ds ! j"
    proof
      assume eq: "map snd ds ! i = map snd ds ! j"
      define m where "m = snd (ds ! i)"
      have mj: "snd (ds ! j) = m" using eq i j by (simp add: m_def)
      have "ds ! i \<in> set ds" using i by simp
      then have "distinct (map fst m)" using each by (simp add: m_def)
      from path_matches_self[OF this] have pm: "path_matches (\<lambda>b. map_of m b = Some True) m" .
      from uniq[of "\<lambda>b. map_of m b = Some True"] obtain u where
        u: "\<And>x. x < length ds \<and> path_matches (\<lambda>b. map_of m b = Some True) (snd (ds ! x)) \<Longrightarrow> x = u"
        by blast
      have "i = u" using u[of i] i pm by (simp add: m_def)
      moreover have "j = u" using u[of j] j pm mj by simp
      ultimately show False using ne by simp
    qed
  qed
  from build len leaves each dist uniq show ?thesis by blast
qed

theorem buildSubtreeLeafNodePaths_descriptors_witness:
  "perfect_tree example_tree2 2 \<and> Log2 (0 + 1) + 2 \<le> 2
   \<and> emitComputeConditionVector example_tree2 0 2 (TreeNodes 2) [] =
       Inr ([(FCmp FCMP_OLT (LoadFeature 0) (Finite (1 / 2)), ConstantInt 6 0),
             (FCmp FCMP_OGT (LoadFeature 1) (Finite (1 / 2)), ConstantInt 6 1),
             (FCmp FCMP_OLT (CallSqrt (LoadFeature 2)) (Finite (1 / 2)), ConstantInt 6 2)],
            [(0, 0), (1, 1), (2, 2)])
   \<and> buildSubtreeLeafNodePathsBitsMapsRecursively example_tree2 0 2 [(0, 0), (1, 1), (2, 2)] [] =
       Inr [(6, [(2, True), (0, True)]), (5, [(2, False), (0, True)]),
            (4, [(1, True), (0, False)]), (3, [(1, False), (0, False)])]
   \<and> (\<exists>ds. buildSubtreeLeafNodePathsBitsMapsRecursively example_tree2 0 2 [(0, 0), (1, 1), (2, 2)] []
               = Inr ([] @ ds)
           \<and> length ds = 2 ^ 2 \<and> map fst ds = subtreeLeavesTrueFirst 0 2 \<and> distinct (map snd ds))"
proof -
  have l: "Log2 (0 + 1) + 2 \<le> 2" by (simp add: Log2_1)
  from buildSubtreeLeafNodePaths_descriptors[OF example_tree2_perfect l example_tree2_bitOffsets, of "[]"]
  have "\<exists>ds. buildSubtreeLeafNodePathsBitsMapsRecursively example_tree2 0 2 [(0, 0), (1, 1), (2, 2)] []
               = Inr ([] @ ds)
           \<and> length ds = 2 ^ 2 \<and> map fst ds = subtreeLeavesTrueFirst 0 2 \<and> distinct (map snd ds)"
    by blast
  with example_tree2_perfect l example_tree2_bitOffsets example_tree2_paths show ?thesis by blast
qed

section \<open>The variants of the leaf descriptors, up to five levels\<close>

text \<open>
  For a subtree of \<open>k \<le> 5\<close> levels inside a perfect tree all condition bits lie below
  bit 32, and the variant enumerator, applied to each of the \<open>2^k\<close> leaf descriptors,
  succeeds. For a leaf whose variable bit set has size \<open>v\<close> (here \<open>v = 2^k - 1 - k\<close>)
  it produces exactly \<open>2^v\<close> variants, without repetition, and the variants are
  exactly the values of the fixed template OR-ed with a word whose set bits are variable
  bits. Across the \<open>2^k\<close> leaves the variant sets are pairwise disjoint, and their
  union is the set of the values below \<open>2^(2^k - 1)\<close>.
\<close>

lemma conditionVectorVariants_partition:
  assumes "perfect_tree tree D" and "Log2 (R + 1) + k \<le> D" and "k \<le> 5"
    and "emitComputeConditionVector tree R k (TreeNodes k) [] = Inr (code, nodeIdxBitOffsets)"
    and "buildSubtreeLeafNodePathsBitsMapsRecursively tree R k nodeIdxBitOffsets [] = Inr ds"
  shows "\<exists>vss. length vss = length ds \<and> length ds = 2 ^ k
       \<and> (\<forall>i < length ds. \<exists>t.
             buildFixedConditionVectorTemplate (snd (ds ! i)) = Inr t
           \<and> buildCanonicalConditionVectorVariants (TreeNodes k) t (snd (ds ! i)) [] = Inr (vss ! i)
           \<and> distinct (vss ! i)
           \<and> card (variableBits (TreeNodes k) (snd (ds ! i))) = 2 ^ k - 1 - k
           \<and> length (vss ! i) = 2 ^ card (variableBits (TreeNodes k) (snd (ds ! i)))
           \<and> set (vss ! i) =
               (\<lambda>s. t OR s) ` {s. \<forall>b. bit s b \<longrightarrow> b \<in> variableBits (TreeNodes k) (snd (ds ! i))})
       \<and> (\<forall>i < length ds. \<forall>j < length ds. i \<noteq> j \<longrightarrow> set (vss ! i) \<inter> set (vss ! j) = {})
       \<and> (\<Union>i < length ds. set (vss ! i)) = {w. unat w < 2 ^ (2 ^ k - 1)}"
proof -
  let ?n = "TreeNodes k"
  define vss where "vss = map (\<lambda>d. projr (conditionVectorVariants ?n (snd d))) ds"
  have ds: "ds = map (\<lambda>d. (getNodeIdxForSubtreeBitOffset R k (fst d), snd d)) (leafPaths 0 k)"
    using descriptors_result[OF assms(1,2,4), of "[]"] assms(5) by simp
  have len: "length ds = 2 ^ k" by (simp add: ds leafPaths_length)
  have lenp: "length ds = length (leafPaths 0 k)" by (simp add: ds)
  have nth_snd0: "snd (ds ! i) = snd (leafPaths 0 k ! i)" if "i < length ds" for i
    using that by (simp add: ds)
  have n32: "?n < 32" using small_switch[OF assms(3)] by (simp add: TreeNodes_def)
  have desc: "length (snd (ds ! i)) = k \<and> distinct (map fst (snd (ds ! i)))
       \<and> (\<forall>e \<in> set (snd (ds ! i)). fst e < ?n)" if "i < length ds" for i
  proof -
    have "i < length (leafPaths 0 k)" using that lenp by simp
    from leafPaths_descriptor[OF this] show ?thesis
      unfolding nth_snd0[OF that] TreeNodes_def .
  qed
  have var: "\<exists>t. buildFixedConditionVectorTemplate (snd (ds ! i)) = Inr t
           \<and> (\<forall>b. bit t b \<longleftrightarrow> (b, True) \<in> set (snd (ds ! i)))
           \<and> buildCanonicalConditionVectorVariants ?n t (snd (ds ! i)) [] = Inr (vss ! i)
           \<and> distinct (vss ! i)
           \<and> length (vss ! i) = 2 ^ card (variableBits ?n (snd (ds ! i)))
           \<and> set (vss ! i) = {w. \<forall>b. b \<notin> variableBits ?n (snd (ds ! i)) \<longrightarrow> bit w b = bit t b}"
    if "i < length ds" for i
  proof -
    from desc[OF that] have k: "\<forall>e \<in> set (snd (ds ! i)). fst e < ?n"
      and d: "distinct (map fst (snd (ds ! i)))" by simp_all
    from conditionVectorVariants_result[OF n32 k d] obtain t vs where
      r: "buildFixedConditionVectorTemplate (snd (ds ! i)) = Inr t"
         "\<forall>b. bit t b \<longleftrightarrow> (b, True) \<in> set (snd (ds ! i))"
         "buildCanonicalConditionVectorVariants ?n t (snd (ds ! i)) [] = Inr vs"
         "conditionVectorVariants ?n (snd (ds ! i)) = Inr vs"
         "distinct vs" "length vs = 2 ^ card (variableBits ?n (snd (ds ! i)))"
         "set vs = {w. \<forall>b. b \<notin> variableBits ?n (snd (ds ! i)) \<longrightarrow> bit w b = bit t b}" by blast
    have "vss ! i = vs" using that r(4) by (simp add: vss_def)
    with r show ?thesis by blast
  qed
  have match: "set (vss ! i) = {w. (\<forall>b. bit w b \<longrightarrow> b < ?n) \<and> path_matches (bit w) (snd (ds ! i))}"
    if "i < length ds" for i
  proof -
    from var[OF that] obtain t :: "32 word" where
      t: "\<forall>b. bit t b \<longleftrightarrow> (b, True) \<in> set (snd (ds ! i))"
         "set (vss ! i) = {w. \<forall>b. b \<notin> variableBits ?n (snd (ds ! i)) \<longrightarrow> bit w b = bit t b}" by blast
    from desc[OF that] have k: "\<forall>e \<in> set (snd (ds ! i)). fst e < ?n"
      and d: "distinct (map fst (snd (ds ! i)))" by simp_all
    show ?thesis unfolding t(2) by (rule variants_as_match[OF k d t(1)])
  qed
  note nth_snd = nth_snd0
  have uniq: "\<exists>!i. i < length ds \<and> path_matches c (snd (ds ! i))" for c
  proof -
    from leafPaths_unique_match[of 0 k c] obtain i where
      i: "i < length (leafPaths 0 k)" "path_matches c (snd (leafPaths 0 k ! i))"
      and u: "\<And>j. j < length (leafPaths 0 k) \<and> path_matches c (snd (leafPaths 0 k ! j)) \<Longrightarrow> j = i"
      by blast
    show ?thesis
    proof (rule ex1I[of _ i])
      show "i < length ds \<and> path_matches c (snd (ds ! i))" using i lenp nth_snd by simp
    next
      fix j assume j: "j < length ds \<and> path_matches c (snd (ds ! j))"
      then have "snd (ds ! j) = snd (leafPaths 0 k ! j)" using nth_snd[of j] by simp
      with j lenp show "j = i" using u[of j] by simp
    qed
  qed
  have each: "\<forall>i < length ds. \<exists>t.
             buildFixedConditionVectorTemplate (snd (ds ! i)) = Inr t
           \<and> buildCanonicalConditionVectorVariants ?n t (snd (ds ! i)) [] = Inr (vss ! i)
           \<and> distinct (vss ! i)
           \<and> card (variableBits ?n (snd (ds ! i))) = 2 ^ k - 1 - k
           \<and> length (vss ! i) = 2 ^ card (variableBits ?n (snd (ds ! i)))
           \<and> set (vss ! i) = (\<lambda>s. t OR s) ` {s. \<forall>b. bit s b \<longrightarrow> b \<in> variableBits ?n (snd (ds ! i))}"
  proof (intro allI impI)
    fix i assume i: "i < length ds"
    from var[OF i] obtain t where
      t: "buildFixedConditionVectorTemplate (snd (ds ! i)) = Inr t"
         "\<forall>b. bit t b \<longleftrightarrow> (b, True) \<in> set (snd (ds ! i))"
         "buildCanonicalConditionVectorVariants ?n t (snd (ds ! i)) [] = Inr (vss ! i)"
         "distinct (vss ! i)"
         "length (vss ! i) = 2 ^ card (variableBits ?n (snd (ds ! i)))"
         "set (vss ! i) = {w. \<forall>b. b \<notin> variableBits ?n (snd (ds ! i)) \<longrightarrow> bit w b = bit t b}" by blast
    from desc[OF i] have k: "\<forall>e \<in> set (snd (ds ! i)). fst e < ?n"
      and d: "distinct (map fst (snd (ds ! i)))" and l: "length (snd (ds ! i)) = k" by simp_all
    have z: "\<forall>b \<in> variableBits ?n (snd (ds ! i)). \<not> bit t b"
      using t(2) by (force simp: variableBits_def)
    have c: "card (variableBits ?n (snd (ds ! i))) = 2 ^ k - 1 - k"
      using variableBits_card[OF k d] l by (simp add: TreeNodes_def)
    have "set (vss ! i) = (\<lambda>s. t OR s) ` {s. \<forall>b. bit s b \<longrightarrow> b \<in> variableBits ?n (snd (ds ! i))}"
      unfolding t(6) by (rule variants_as_or[OF z])
    with t c show "\<exists>t.
             buildFixedConditionVectorTemplate (snd (ds ! i)) = Inr t
           \<and> buildCanonicalConditionVectorVariants ?n t (snd (ds ! i)) [] = Inr (vss ! i)
           \<and> distinct (vss ! i)
           \<and> card (variableBits ?n (snd (ds ! i))) = 2 ^ k - 1 - k
           \<and> length (vss ! i) = 2 ^ card (variableBits ?n (snd (ds ! i)))
           \<and> set (vss ! i) = (\<lambda>s. t OR s) ` {s. \<forall>b. bit s b \<longrightarrow> b \<in> variableBits ?n (snd (ds ! i))}"
      by blast
  qed
  have disj: "\<forall>i < length ds. \<forall>j < length ds. i \<noteq> j \<longrightarrow> set (vss ! i) \<inter> set (vss ! j) = {}"
  proof (intro allI impI)
    fix i j assume i: "i < length ds" and j: "j < length ds" and ne: "i \<noteq> j"
    show "set (vss ! i) \<inter> set (vss ! j) = {}"
    proof (rule ccontr)
      assume "set (vss ! i) \<inter> set (vss ! j) \<noteq> {}"
      then obtain w where w: "w \<in> set (vss ! i)" "w \<in> set (vss ! j)" by blast
      then have "path_matches (bit w) (snd (ds ! i))" "path_matches (bit w) (snd (ds ! j))"
        unfolding match[OF i] match[OF j] by simp_all
      with uniq[of "bit w"] i j have "i = j" by blast
      with ne show False by simp
    qed
  qed
  have union: "(\<Union>i < length ds. set (vss ! i)) = {w. unat w < 2 ^ (2 ^ k - 1)}"
  proof -
    have "(\<Union>i < length ds. set (vss ! i)) = {w :: 32 word. \<forall>b. bit w b \<longrightarrow> b < ?n}"
    proof (intro equalityI subsetI)
      fix w assume "w \<in> (\<Union>i < length ds. set (vss ! i))"
      then obtain i where "i < length ds" "w \<in> set (vss ! i)" by blast
      then show "w \<in> {w :: 32 word. \<forall>b. bit w b \<longrightarrow> b < ?n}" using match by simp
    next
      fix w :: "32 word" assume w: "w \<in> {w :: 32 word. \<forall>b. bit w b \<longrightarrow> b < ?n}"
      from uniq[of "bit w"] obtain i where i: "i < length ds" "path_matches (bit w) (snd (ds ! i))"
        by blast
      then have "w \<in> set (vss ! i)" using w match[OF i(1)] by simp
      with i(1) show "w \<in> (\<Union>i < length ds. set (vss ! i))" by blast
    qed
    then show ?thesis by (simp add: word_below_power_bits TreeNodes_def)
  qed
  have lv: "length vss = length ds" by (simp add: vss_def)
  show ?thesis
    by (rule exI[of _ vss]) (intro conjI lv len each disj union)
qed

lemma conditionVectorVariants_partition_example:
  "perfect_tree example_tree2 2 \<and> Log2 (0 + 1) + 2 \<le> 2 \<and> (2::nat) \<le> 5
   \<and> emitComputeConditionVector example_tree2 0 2 (TreeNodes 2) [] =
       Inr ([(FCmp FCMP_OLT (LoadFeature 0) (Finite (1 / 2)), ConstantInt 6 0),
             (FCmp FCMP_OGT (LoadFeature 1) (Finite (1 / 2)), ConstantInt 6 1),
             (FCmp FCMP_OLT (CallSqrt (LoadFeature 2)) (Finite (1 / 2)), ConstantInt 6 2)],
            [(0, 0), (1, 1), (2, 2)])
   \<and> buildSubtreeLeafNodePathsBitsMapsRecursively example_tree2 0 2 [(0, 0), (1, 1), (2, 2)] [] =
       Inr [(6, [(2, True), (0, True)]), (5, [(2, False), (0, True)]),
            (4, [(1, True), (0, False)]), (3, [(1, False), (0, False)])]
   \<and> conditionVectorVariants 3 [(2, True), (0, True)] = Inr [7, 5]
   \<and> conditionVectorVariants 3 [(2, False), (0, True)] = Inr [3, 1]
   \<and> conditionVectorVariants 3 [(1, True), (0, False)] = Inr [6, 2]
   \<and> conditionVectorVariants 3 [(1, False), (0, False)] = Inr [4, 0]
   \<and> (\<exists>vss :: 32 word list list. length vss = 4
         \<and> (\<Union>i < 4. set (vss ! i)) = {w. unat w < 2 ^ (2 ^ 2 - 1)})"
proof -
  have l: "Log2 (0 + 1) + 2 \<le> 2" by (simp add: Log2_1)
  have k: "(2::nat) \<le> 5" by simp
  let ?ds = "[(6, [(2, True), (0, True)]), (5, [(2, False), (0, True)]),
            (4, [(1, True), (0, False)]), (3, [(1::nat, False), (0::nat, False)])] :: LeafNodePathBitsMap_t list"
  from conditionVectorVariants_partition[OF example_tree2_perfect l k example_tree2_bitOffsets
      example_tree2_paths]
  obtain vss :: "32 word list list" where
    a: "length vss = length ?ds"
    and u: "(\<Union>i < length ?ds. set (vss ! i)) = {w. unat w < 2 ^ (2 ^ 2 - 1)}"
    by (elim exE conjE) (rule that, assumption+)
  have len4: "length ?ds = 4" by simp
  from a u have "length vss = 4 \<and> (\<Union>i < 4. set (vss ! i)) = {w. unat w < 2 ^ (2 ^ 2 - 1)}"
    unfolding len4 by blast
  then have ex: "\<exists>vss :: 32 word list list. length vss = 4
         \<and> (\<Union>i < 4. set (vss ! i)) = {w. unat w < 2 ^ (2 ^ 2 - 1)}" by (rule exI)
  show ?thesis
    by (intro conjI example_tree2_perfect l k example_tree2_bitOffsets example_tree2_paths
        example_tree2_variants ex)
qed

section \<open>Bounded descent and the reference traversal\<close>

declare reference_traversal.simps [simp del]

lemma emitted_predicate:
  "eval_bool_ir intr data (emitSingleNodeEvaluaton node) = node_predicate intr node data"
  by (cases "Op node"; cases "Comp node")
     (auto simp: emitSingleNodeEvaluaton_def emitOperator_def emitComparison_def node_predicate_def
        apply_op_def comparator_def isnan_def Let_def
        elim: float_lt.elims)

lemma perfect_tree_predicate:
  assumes "perfect_tree tree D" "features_in_range tree x" "i < 2 ^ D - 1"
  shows "\<exists>node b. map_of tree i = Some node \<and> node_predicate intr node x = Some b"
proof -
  from perfect_tree_node[OF assms(1,3)] obtain node where n: "map_of tree i = Some node" by blast
  then have "(i, node) \<in> set tree" by (rule map_of_SomeD)
  then have "DataSetFeatureIdx node < length x"
    using assms(2) unfolding features_in_range_def list_all_iff by fastforce
  then show ?thesis using n by (simp add: node_predicate_def)
qed

lemma descend_total:
  assumes "perfect_tree tree D" "features_in_range tree x"
  shows "Log2 (i + 1) + r \<le> D \<Longrightarrow>
     \<exists>j. descend intr tree x i r = Some j \<and> j \<in> set (subtreeLevel i r)"
proof (induction r arbitrary: i)
  case 0
  show ?case by simp
next
  case (Suc r)
  then have "Log2 (i + 1) < D" by simp
  then have "i < 2 ^ D - 1" using internal_iff_level by blast
  from perfect_tree_predicate[OF assms this] obtain node b where
    n: "map_of tree i = Some node" "node_predicate intr node x = Some b" by blast
  define c where "c = (if b then 2 * i + 2 else 2 * i + 1)"
  have "Log2 (c + 1) = Suc (Log2 (i + 1))"
    using Log2_double[of i] by (simp add: c_def numeral_3_eq_3)
  then have "Log2 (c + 1) + r \<le> D" using Suc(2) by simp
  from Suc(1)[OF this] obtain j where j: "descend intr tree x c r = Some j" "j \<in> set (subtreeLevel c r)"
    by blast
  have "j \<in> set (subtreeLevel i (Suc r))" unfolding subtreeLevel_split using j(2) by (cases b) (auto simp: c_def)
  moreover have "descend intr tree x i (Suc r) = Some j" using n j(1) by (simp add: c_def)
  ultimately show ?case by blast
qed

lemma descend_add:
  "descend intr tree x i (r + s) =
     (case descend intr tree x i r of None \<Rightarrow> None | Some j \<Rightarrow> descend intr tree x j s)"
  by (induction r arbitrary: i) (auto split: option.splits)

lemma reference_descend:
  "Log2 (i + 1) + r \<le> D \<Longrightarrow>
     reference_traversal intr tree (2 ^ D - 1) x i =
       (case descend intr tree x i r of
          None \<Rightarrow> None
        | Some j \<Rightarrow> reference_traversal intr tree (2 ^ D - 1) x j)"
proof (induction r arbitrary: i)
  case 0
  show ?case by simp
next
  case (Suc r)
  then have "Log2 (i + 1) < D" by simp
  then have lt: "i < 2 ^ D - 1" using internal_iff_level by blast
  have step: "Log2 ((if b then 2 * i + 2 else 2 * i + 1) + 1) + r \<le> D" for b
    using Suc(2) Log2_double[of i] by (simp add: numeral_3_eq_3)
  show ?case
    using lt Suc(1)[OF step]
    by (subst reference_traversal.simps) (simp split: option.splits)
qed

lemma walk_descend:
  assumes "perfect_tree tree D" "features_in_range tree x" "Log2 (R + 1) + k \<le> D"
    and c: "\<forall>b < 2 ^ k - 1. node_predicate intr (the (map_of tree (getNodeIdxForSubtreeBitOffset R k b))) x
               = Some (c b)"
  shows "Log2 (b + 1) + r \<le> k \<Longrightarrow>
     descend intr tree x (getNodeIdxForSubtreeBitOffset R k b) r =
       Some (getNodeIdxForSubtreeBitOffset R k (walk c b r))"
proof (induction r arbitrary: b)
  case 0
  show ?case by simp
next
  case (Suc r)
  let ?g = "getNodeIdxForSubtreeBitOffset R k"
  have lv: "Log2 (b + 1) < k" using Suc(2) by simp
  from perfect_tree_node[OF assms(1) subtree_node_internal[OF assms(3) lv]] obtain node where
    n: "map_of tree (?g b) = Some node" by blast
  have p: "node_predicate intr node x = Some (c b)" using c level_bitOffset[OF lv] n by auto
  define ch where "ch = (if c b then 2 * b + 2 else 2 * b + 1)"
  have gch: "(if c b then 2 * ?g b + 2 else 2 * ?g b + 1) = ?g ch"
    by (simp add: ch_def getNodeIdx_children_Suc)
  have "Log2 (ch + 1) = Suc (Log2 (b + 1))" using Log2_double[of b] by (simp add: ch_def numeral_3_eq_3)
  then have "Log2 (ch + 1) + r \<le> k" using Suc(2) by simp
  from Suc(1)[OF this] have "descend intr tree x (?g ch) r = Some (?g (walk c ch r))" .
  then show ?case using n p gch by (simp add: ch_def)
qed

section \<open>Execution of an emitted switch\<close>

declare emitSubtreeSwitchesRecursively.simps [simp del]

lemma exec_cond_code_map:
  assumes ev: "\<forall>b < n. eval_bool_ir intr data (f b) = Some (c b)" and n: "n \<le> ty"
    and sh: "\<forall>b < n. int_value (sh b) = b"
  shows "\<exists>cv. exec_cond_code intr data ty (map (\<lambda>b. (f b, sh b)) [b0..<n]) acc = Some cv
            \<and> (\<forall>i. bit cv i \<longleftrightarrow> bit acc i \<or> (b0 \<le> i \<and> i < n \<and> c i))"
proof (induction "n - b0" arbitrary: b0 acc)
  case 0
  then have "[b0..<n] = []" by simp
  then show ?case using 0 by auto
next
  case (Suc d)
  then have lt: "b0 < n" and d: "d = n - Suc b0" by simp_all
  have b64: "b0 < ty" using lt n by simp
  define acc1 where "acc1 = acc OR take_bit ty (push_bit b0 (if c b0 then 1 else 0 :: nat))"
  have bits: "bit acc1 i \<longleftrightarrow> bit acc i \<or> (i = b0 \<and> c b0)" for i
    using b64 by (auto simp: acc1_def bit_or_iff bit_take_bit_iff bit_push_bit_iff bit_1_iff bit_Suc_0_iff)
  from Suc(1)[OF d, of acc1] obtain cv where
    cv: "exec_cond_code intr data ty (map (\<lambda>b. (f b, sh b)) [Suc b0..<n]) acc1 = Some cv"
        "\<forall>i. bit cv i \<longleftrightarrow> bit acc1 i \<or> (Suc b0 \<le> i \<and> i < n \<and> c i)" by blast
  have iv: "int_value (sh b0) = b0" using sh lt by simp
  have e: "eval_bool_ir intr data (f b0) = Some (c b0)" using ev lt by simp
  have nb: "\<not> ty \<le> b0" using b64 by simp
  have ex: "exec_cond_code intr data ty (map (\<lambda>b. (f b, sh b)) [b0..<n]) acc = Some cv"
    unfolding upt_conv_Cons[OF lt] list.map exec_cond_code.simps e iv Let_def option.case
    using cv(1) by (simp only: nb if_False acc1_def)
  have bs: "\<forall>i. bit cv i \<longleftrightarrow> bit acc i \<or> (b0 \<le> i \<and> i < n \<and> c i)"
  proof
    fix i
    have "bit cv i \<longleftrightarrow> bit acc1 i \<or> (Suc b0 \<le> i \<and> i < n \<and> c i)" using cv(2) by (rule spec)
    then show "bit cv i \<longleftrightarrow> bit acc i \<or> (b0 \<le> i \<and> i < n \<and> c i)"
      unfolding bits[of i] using lt by (cases "i = b0") auto
  qed
  show ?case by (rule exI[of _ cv], rule conjI, rule ex, rule bs)
qed

lemma emitted_condition_vector:
  assumes ev: "\<forall>b < n. eval_bool_ir intr data (f b) = Some (c b)" and n: "n < 32"
  shows "\<exists>cv. exec_cond_code intr data returnTy (map (\<lambda>b. (f b, APInt 6 b)) [0..<n]) 0 = Some cv
            \<and> (\<forall>i. bit cv i \<longleftrightarrow> i < n \<and> c i)"
proof -
  have sh: "\<forall>b < n. int_value (APInt 6 b) = b"
  proof (intro allI impI)
    fix b assume "b < n"
    then have "b < 2 ^ 6" using n by simp
    then show "int_value (APInt 6 b) = b" unfolding APInt_def const_int.sel by (rule mod_less)
  qed
  have le: "n \<le> returnTy" using n by (simp add: returnTy_def)
  from exec_cond_code_map[OF ev le sh, of 0 0] show ?thesis by simp
qed

lemma exec_switch_cases_select:
  "i0 < length cs \<Longrightarrow> cv \<in> int_value ` set (fst (cs ! i0)) \<Longrightarrow>
   (\<forall>j < i0. cv \<notin> int_value ` set (fst (cs ! j))) \<Longrightarrow>
     exec_switch_cases intr data cv cs = exec_eval_ir intr data (snd (cs ! i0))"
proof (induction cs arbitrary: i0)
  case Nil
  then show ?case by simp
next
  case (Cons a cs)
  show ?case
  proof (cases i0)
    case 0
    then show ?thesis using Cons(3) by simp
  next
    case (Suc i)
    have "cv \<notin> int_value ` set (fst a)" using Cons(4)[rule_format, of 0] Suc by simp
    moreover have "exec_switch_cases intr data cv cs = exec_eval_ir intr data (snd (cs ! i))"
    proof (rule Cons(1))
      show "i < length cs" using Cons(2) Suc by simp
      show "cv \<in> int_value ` set (fst (cs ! i))" using Cons(3) Suc by simp
      show "\<forall>j<i. cv \<notin> int_value ` set (fst (cs ! j))"
        using Cons(4) Suc by (metis Suc_less_eq nth_Cons_Suc)
    qed
    ultimately show ?thesis using Suc by simp
  qed
qed

lemma emit_leaves_result:
  assumes "\<forall>d \<in> set ds. (\<exists>vs. conditionVectorVariants numNodes (snd d) = Inr vs)
             \<and> (0 < nested \<longrightarrow> (\<exists>blk. emitSubtreeSwitchesRecursively tree (fst d) k (nested - 1) = Inr blk))"
  shows "emitSubtreeSwitchesRecursively_leaves tree k nested numNodes ds cases =
           Inr (cases @ map (switchCase tree k nested numNodes) ds)"
  using assms
proof (induction ds arbitrary: cases)
  case Nil
  show ?case by simp
next
  case (Cons d ds)
  from Cons(2) obtain vs where vs: "conditionVectorVariants numNodes (snd d) = Inr vs" by auto
  then obtain t where t: "buildFixedConditionVectorTemplate (snd d) = Inr t"
      "buildCanonicalConditionVectorVariants numNodes t (snd d) [] = Inr vs"
    by (auto simp: conditionVectorVariants_def split: sum.splits)
  have blk: "(if 0 < nested then emitSubtreeSwitchesRecursively tree (fst d) k (nested - 1)
               else Inr (StoreConstant (ConstantInt returnTy (fst d))))
           = Inr (snd (switchCase tree k nested numNodes d))"
    using Cons(2) by (auto simp: switchCase_def)
  have IH: "emitSubtreeSwitchesRecursively_leaves tree k nested numNodes ds cs =
           Inr (cs @ map (switchCase tree k nested numNodes) ds)" for cs
    using Cons(1)[of cs] Cons(2) by simp
  have fstc: "fst (switchCase tree k nested numNodes d) = map (\<lambda>v. ConstantInt_get (numNodes + 1) (unat v)) vs"
    by (simp add: switchCase_def vs)
  show ?case
    by (simp only: emitSubtreeSwitchesRecursively_leaves.simps Let_def blk t sum.case IH)
       (simp add: prod_eq_iff fstc)
qed

lemma case_values_match:
  assumes n: "numNodes < 32" and keys: "\<forall>e \<in> set m. fst e < numNodes"
    and dist: "distinct (map fst m)" and cvb: "\<forall>i. bit (cv :: nat) i \<longrightarrow> i < numNodes"
  shows "\<exists>vs. conditionVectorVariants numNodes m = Inr vs
     \<and> (cv \<in> int_value ` set (map (\<lambda>v. ConstantInt_get (numNodes + 1) (unat v)) vs)
          \<longleftrightarrow> path_matches (bit cv) m)"
proof -
  from conditionVectorVariants_result[OF n keys dist] obtain t :: "32 word" and vs where
    t: "\<forall>i. bit t i \<longleftrightarrow> (i, True) \<in> set m"
    and vs: "conditionVectorVariants numNodes m = Inr vs"
    and sv: "set vs = {w :: 32 word. \<forall>i. i \<notin> variableBits numNodes m \<longrightarrow> bit w i = bit t i}"
    by blast
  have sv2: "set vs = {w :: 32 word. (\<forall>i. bit w i \<longrightarrow> i < numNodes) \<and> path_matches (bit w) m}"
    unfolding sv by (rule variants_as_match[OF keys dist t])
  define w0 :: "32 word" where "w0 = of_nat cv"
  have bw: "bit w0 i = bit cv i" for i
    using cvb n by (auto simp: w0_def bit_of_nat_iff)
  then have bw': "bit w0 = bit cv" by (rule ext)
  have uw: "unat w0 = cv"
    by (rule bit_eqI) (simp add: bit_unsigned_iff bw)
  have small: "unat w mod 2 ^ (numNodes + 1) = unat w" if "w \<in> set vs" for w :: "32 word"
  proof -
    from that have "w \<in> {w :: 32 word. \<forall>i. bit w i \<longrightarrow> i < numNodes}" unfolding sv2 by simp
    then have "unat w < 2 ^ numNodes" unfolding word_below_power_bits by simp
    also have "(2::nat) ^ numNodes \<le> 2 ^ (numNodes + 1)" by simp
    finally show ?thesis by (rule mod_less)
  qed
  have img: "int_value ` set (map (\<lambda>v. ConstantInt_get (numNodes + 1) (unat v)) vs) = unat ` set vs"
  proof -
    have "int_value (ConstantInt_get (numNodes + 1) (unat w)) = unat w" if "w \<in> set vs" for w :: "32 word"
      unfolding ConstantInt_get_def const_int.sel using small[OF that] .
    then show ?thesis by (force simp: image_image)
  qed
  have "cv \<in> unat ` set vs \<longleftrightarrow> w0 \<in> set vs"
  proof
    assume "cv \<in> unat ` set vs"
    then obtain w where w: "w \<in> set vs" "cv = unat w" by blast
    then have "w0 = w" by (simp add: w0_def)
    then show "w0 \<in> set vs" using w by simp
  next
    assume "w0 \<in> set vs"
    then show "cv \<in> unat ` set vs" using uw by force
  qed
  also have "\<dots> \<longleftrightarrow> path_matches (bit cv) m"
    unfolding sv2 using cvb by (simp add: bw')
  finally show ?thesis using vs img by simp
qed

lemma leaf_in_level:
  assumes "d \<in> set (leafPaths 0 k)"
  shows "getNodeIdxForSubtreeBitOffset R k (fst d) \<in> set (subtreeLevel R k)"
proof -
  have "fst d \<in> set (map fst (leafPaths 0 k))" using assms by simp
  then have "fst d \<in> set (subtreeLevel 0 k)"
    unfolding leafPaths_leaves subtreeLeavesTrueFirst_rev by simp
  then have "getNodeIdxForSubtreeBitOffset R k (fst d)
      \<in> set (map (getNodeIdxForSubtreeBitOffset R k) (subtreeLevel 0 k))" by simp
  then show ?thesis unfolding getNodeIdx_subtreeLevel getNodeIdx_root .
qed

lemma switch_level:
  assumes pt: "perfect_tree tree D" and fr: "features_in_range tree x"
    and inside: "Log2 (R + 1) + k \<le> D" and k5: "k \<le> 5"
    and nested: "0 < nested \<Longrightarrow> \<forall>leaf \<in> set (subtreeLevel R k).
        \<exists>blk. emitSubtreeSwitchesRecursively tree leaf k (nested - 1) = Inr blk"
  shows "\<exists>sw j. emitSubtreeSwitchesRecursively tree R k nested = Inr sw
       \<and> descend intr tree x R k = Some j \<and> j \<in> set (subtreeLevel R k)
       \<and> exec_eval_ir intr x sw =
           (if 0 < nested
            then exec_eval_ir intr x (projr (emitSubtreeSwitchesRecursively tree j k (nested - 1)))
            else Some j)"
proof -
  let ?g = "getNodeIdxForSubtreeBitOffset R k"
  define n :: nat where "n = 2 ^ k - 1"
  have n32: "n < 32" unfolding n_def using k5 by (rule small_switch)
  have tn: "TreeNodes k = n" by (simp add: TreeNodes_def n_def)
  define code where
    "code = map (\<lambda>b. (emitSingleNodeEvaluaton (the (map_of tree (?g b))), APInt 6 b)) [0..<n]"
  from emitComputeConditionVector_result[OF pt inside] obtain offs where
    ccv: "emitComputeConditionVector tree R k (TreeNodes k) [] = Inr (code, offs)"
    unfolding code_def n_def by blast
  define ds where "ds = map (\<lambda>d. (?g (fst d), snd d)) (leafPaths 0 k)"
  have build: "buildSubtreeLeafNodePathsBitsMapsRecursively tree R k offs [] = Inr ds"
    using descriptors_result[OF pt inside ccv, of "[]"] by (simp add: ds_def)
  have len: "length ds = PowerOf2 k" by (simp add: ds_def leafPaths_length PowerOf2_def)
  have lds: "length ds = length (leafPaths 0 k)" by (simp add: ds_def)
  have desc: "distinct (map fst (snd d)) \<and> (\<forall>e \<in> set (snd d). fst e < n)"
    if "d \<in> set (leafPaths 0 k)" for d
  proof -
    from that obtain i where "i < length (leafPaths 0 k)" "d = leafPaths 0 k ! i"
      by (auto simp: in_set_conv_nth)
    then show ?thesis using leafPaths_descriptor[of i k] by (simp add: n_def)
  qed
  have each: "\<forall>d \<in> set ds. (\<exists>vs. conditionVectorVariants (TreeNodes k) (snd d) = Inr vs)
      \<and> (0 < nested \<longrightarrow> (\<exists>blk. emitSubtreeSwitchesRecursively tree (fst d) k (nested - 1) = Inr blk))"
  proof
    fix d assume "d \<in> set ds"
    then obtain d' where d': "d' \<in> set (leafPaths 0 k)" "d = (?g (fst d'), snd d')"
      by (auto simp: ds_def)
    from desc[OF d'(1)] have "distinct (map fst (snd d'))" "\<forall>e \<in> set (snd d'). fst e < n" by simp_all
    from conditionVectorVariants_result[OF n32 this(2) this(1)]
    have "\<exists>vs. conditionVectorVariants n (snd d') = Inr vs" by blast
    moreover have "0 < nested \<longrightarrow>
        (\<exists>blk. emitSubtreeSwitchesRecursively tree (?g (fst d')) k (nested - 1) = Inr blk)"
      using nested leaf_in_level[OF d'(1), of R] by blast
    ultimately show "(\<exists>vs. conditionVectorVariants (TreeNodes k) (snd d) = Inr vs)
      \<and> (0 < nested \<longrightarrow> (\<exists>blk. emitSubtreeSwitchesRecursively tree (fst d) k (nested - 1) = Inr blk))"
      unfolding tn d'(2) fst_conv snd_conv by (rule conjI)
  qed
  define cs where "cs = map (switchCase tree k nested n) ds"
  have leaves: "emitSubtreeSwitchesRecursively_leaves tree k nested (TreeNodes k) ds [] = Inr cs"
    using emit_leaves_result[OF each, of "[]"] by (simp add: cs_def tn)
  have emit: "emitSubtreeSwitchesRecursively tree R k nested = Inr (SubtreeSwitch returnTy code cs)"
    by (subst emitSubtreeSwitchesRecursively.simps) (simp add: Let_def ccv build len leaves)
  define c0 where "c0 b = (node_predicate intr (the (map_of tree (?g b))) x = Some True)" for b
  have pred0: "node_predicate intr (the (map_of tree (?g b))) x = Some (c0 b)" if "b < n" for b
  proof -
    have "?g b < 2 ^ D - 1"
      using subtree_node_internal[OF inside bitOffset_level] that unfolding n_def by blast
    from perfect_tree_predicate[OF pt fr this, of intr] obtain node v where
      "map_of tree (?g b) = Some node" "node_predicate intr node x = Some v" by blast
    then show ?thesis by (cases v) (simp_all add: c0_def)
  qed
  have ev: "\<forall>b < n. eval_bool_ir intr x (emitSingleNodeEvaluaton (the (map_of tree (?g b)))) = Some (c0 b)"
    using pred0 by (simp add: emitted_predicate)
  from emitted_condition_vector[OF ev n32] obtain cv where
    cv: "exec_cond_code intr x returnTy code 0 = Some cv" "\<forall>i. bit cv i \<longleftrightarrow> i < n \<and> c0 i"
    unfolding code_def by blast
  have cvb: "\<forall>i. bit cv i \<longrightarrow> i < n" using cv(2) by simp
  have pred: "\<forall>b < 2 ^ k - 1. node_predicate intr (the (map_of tree (?g b))) x = Some (bit cv b)"
    using pred0 cv(2) by (simp add: n_def)
  define j where "j = ?g (walk (bit cv) 0 k)"
  have "Log2 (0 + 1) + k \<le> k" by (simp add: Log2_1)
  from walk_descend[OF pt fr inside pred this]
  have dj: "descend intr tree x R k = Some j" by (simp add: getNodeIdx_root j_def)
  have "walk (bit cv) 0 k \<in> set (subtreeLevel 0 k)" by (rule walk_in_level)
  then have "j \<in> set (map ?g (subtreeLevel 0 k))" unfolding j_def by simp
  then have jl: "j \<in> set (subtreeLevel R k)" unfolding getNodeIdx_subtreeLevel getNodeIdx_root .
  from leafPaths_unique_match[of 0 k "bit cv"] obtain i0 where
    i0: "i0 < length (leafPaths 0 k)" "path_matches (bit cv) (snd (leafPaths 0 k ! i0))"
    and uniq: "\<And>i. i < length (leafPaths 0 k) \<Longrightarrow> path_matches (bit cv) (snd (leafPaths 0 k ! i)) \<Longrightarrow> i = i0"
    by blast
  have csn: "cs ! i = switchCase tree k nested n (?g (fst (leafPaths 0 k ! i)), snd (leafPaths 0 k ! i))"
    if "i < length (leafPaths 0 k)" for i
    using that by (simp add: cs_def ds_def)
  have match: "cv \<in> int_value ` set (fst (cs ! i)) \<longleftrightarrow> path_matches (bit cv) (snd (leafPaths 0 k ! i))"
    if "i < length (leafPaths 0 k)" for i
  proof -
    have "leafPaths 0 k ! i \<in> set (leafPaths 0 k)" using that by simp
    from desc[OF this] have "distinct (map fst (snd (leafPaths 0 k ! i)))"
      "\<forall>e \<in> set (snd (leafPaths 0 k ! i)). fst e < n" by simp_all
    from case_values_match[OF n32 this(2) this(1) cvb] obtain vs where
      "conditionVectorVariants n (snd (leafPaths 0 k ! i)) = Inr vs"
      "cv \<in> int_value ` set (map (\<lambda>v. ConstantInt_get (n + 1) (unat v)) vs)
          \<longleftrightarrow> path_matches (bit cv) (snd (leafPaths 0 k ! i))" by blast
    then show ?thesis unfolding csn[OF that] by (simp add: switchCase_def)
  qed
  have sel: "exec_switch_cases intr x cv cs = exec_eval_ir intr x (snd (cs ! i0))"
  proof (rule exec_switch_cases_select)
    show "i0 < length cs" using i0(1) by (simp add: cs_def ds_def)
    show "cv \<in> int_value ` set (fst (cs ! i0))" using match[OF i0(1)] i0(2) by simp
    show "\<forall>i<i0. cv \<notin> int_value ` set (fst (cs ! i))"
    proof (intro allI impI)
      fix i assume "i < i0"
      then have il: "i < length (leafPaths 0 k)" using i0(1) by simp
      show "cv \<notin> int_value ` set (fst (cs ! i))"
        using match[OF il] uniq[OF il] \<open>i < i0\<close> by auto
    qed
  qed
  have "leafPaths 0 k ! i0 \<in> set (leafPaths 0 k)" using i0(1) by simp
  from leafPaths_match[OF this, of "bit cv"] i0(2)
  have "fst (leafPaths 0 k ! i0) = walk (bit cv) 0 k" by simp
  then have blk: "snd (cs ! i0) =
      (if 0 < nested then projr (emitSubtreeSwitchesRecursively tree j k (nested - 1))
       else StoreConstant (ConstantInt returnTy j))"
    unfolding csn[OF i0(1)] by (simp add: switchCase_def j_def)
  have "exec_eval_ir intr x (SubtreeSwitch returnTy code cs) =
      (if 0 < nested
       then exec_eval_ir intr x (projr (emitSubtreeSwitchesRecursively tree j k (nested - 1)))
       else Some j)"
    by (simp add: cv(1) sel blk)
  with emit dj jl show ?thesis by blast
qed

section \<open>Nested switches and the bounded descent\<close>

lemma emitted_switches:
  assumes pt: "perfect_tree tree D" and fr: "features_in_range tree x" and k5: "k \<le> 5"
  shows "Log2 (R + 1) + (nested + 1) * k \<le> D \<Longrightarrow>
     \<exists>sw j. emitSubtreeSwitchesRecursively tree R k nested = Inr sw
        \<and> descend intr tree x R ((nested + 1) * k) = Some j
        \<and> exec_eval_ir intr x sw = Some j"
proof (induction nested arbitrary: R)
  case 0
  then have inside: "Log2 (R + 1) + k \<le> D" by simp
  have "0 < (0::nat) \<Longrightarrow> \<forall>leaf \<in> set (subtreeLevel R k).
        \<exists>blk. emitSubtreeSwitchesRecursively tree leaf k (0 - 1) = Inr blk" by simp
  from switch_level[OF pt fr inside k5 this, of intr] show ?case by auto
next
  case (Suc m)
  have inside: "Log2 (R + 1) + k \<le> D" using Suc(2) by simp
  have below: "Log2 (leaf + 1) + (m + 1) * k \<le> D" if "leaf \<in> set (subtreeLevel R k)" for leaf
    using subtreeLevel_level[OF that] Suc(2) by simp
  have nested: "0 < Suc m \<Longrightarrow> \<forall>leaf \<in> set (subtreeLevel R k).
        \<exists>blk. emitSubtreeSwitchesRecursively tree leaf k (Suc m - 1) = Inr blk"
    using Suc(1)[OF below] by auto
  from switch_level[OF pt fr inside k5 nested, of intr] obtain sw j1 where
    sw: "emitSubtreeSwitchesRecursively tree R k (Suc m) = Inr sw"
    and j1: "descend intr tree x R k = Some j1" "j1 \<in> set (subtreeLevel R k)"
    and ex: "exec_eval_ir intr x sw =
       exec_eval_ir intr x (projr (emitSubtreeSwitchesRecursively tree j1 k m))"
    by auto
  from Suc(1)[OF below[OF j1(2)]] obtain sw1 j where
    sw1: "emitSubtreeSwitchesRecursively tree j1 k m = Inr sw1"
    and j: "descend intr tree x j1 ((m + 1) * k) = Some j" "exec_eval_ir intr x sw1 = Some j"
    by blast
  have "(Suc m + 1) * k = k + (m + 1) * k" by simp
  then have "descend intr tree x R ((Suc m + 1) * k) = Some j"
    using descend_add[of intr tree x R k "(m + 1) * k"] j1(1) j(1) by simp
  moreover have "exec_eval_ir intr x sw = Some j" using ex sw1 j(2) by simp
  ultimately show ?case using sw by blast
qed

lemma features_in_range_exists: "\<exists>x. features_in_range tree x"
proof -
  define n where "n = Suc (Max (insert 0 (set (map (\<lambda>entry. DataSetFeatureIdx (snd entry)) tree))))"
  have "features_in_range tree (replicate n NaN)"
    unfolding features_in_range_def list_all_iff
  proof
    fix e assume "e \<in> set tree"
    then have "DataSetFeatureIdx (snd e) \<in> insert 0 (set (map (\<lambda>entry. DataSetFeatureIdx (snd entry)) tree))"
      by simp
    then have "DataSetFeatureIdx (snd e) \<le> Max (insert 0 (set (map (\<lambda>entry. DataSetFeatureIdx (snd entry)) tree)))"
      by (intro Max_ge) simp_all
    then show "DataSetFeatureIdx (snd e) < length (replicate n NaN)" by (simp add: n_def)
  qed
  then show ?thesis ..
qed

lemma emitSubtreeEvaluation_result:
  assumes pt: "perfect_tree tree D" and fr: "features_in_range tree x"
    and s: "0 < sD" "sD \<le> 5" "sD dvd fD" "0 < fD" and inside: "Log2 (R + 1) + fD \<le> D"
  shows "\<exists>body j. emitSubtreeEvaluation tree R fD sD = Inr body
     \<and> descend intr tree x R fD = Some j \<and> exec_eval_ir intr x body = Some j"
proof -
  from s(3) obtain q where q: "fD = sD * q" ..
  have q0: "0 < q" using s(4) q by (cases q) simp_all
  have m: "fD mod sD = 0" using s(3) by simp
  have dv: "fD div sD = q" using q s(1) by simp
  have lv: "(q - 1 + 1) * sD = fD" using q q0 by (simp add: mult.commute)
  then have "Log2 (R + 1) + (q - 1 + 1) * sD \<le> D" using inside by simp
  from emitted_switches[OF pt fr s(2) this, of intr] obtain sw j where
    "emitSubtreeSwitchesRecursively tree R sD (q - 1) = Inr sw"
    "descend intr tree x R ((q - 1 + 1) * sD) = Some j" "exec_eval_ir intr x sw = Some j" by blast
  then show ?thesis unfolding lv using s(1) m dv by (simp add: emitSubtreeEvaluation_def)
qed

lemma emitSubtreeEvaluation_success:
  assumes pt: "perfect_tree tree D"
    and s: "0 < sD" "sD \<le> 5" "sD dvd fD" "0 < fD" and inside: "Log2 (R + 1) + fD \<le> D"
  shows "\<exists>body. emitSubtreeEvaluation tree R fD sD = Inr body"
proof -
  obtain x where "features_in_range tree x" using features_in_range_exists by blast
  from emitSubtreeEvaluation_result[OF pt this s inside, of example_intrinsics] show ?thesis by blast
qed

section \<open>The compiled evaluators and the reference traversal\<close>

lemma template_loop_Inr_keys:
  "buildFixedConditionVectorTemplate_loop m acc = Inr t \<Longrightarrow> \<forall>e \<in> set m. fst e < 32"
proof (induction m arbitrary: acc)
  case Nil
  show ?case by simp
next
  case (Cons e m)
  from Cons(2) have lt: "fst e < 32" by (simp add: Let_def split: if_splits)
  with Cons(2) have "buildFixedConditionVectorTemplate_loop m
      (acc OR push_bit (fst e) (if snd e then 1 else 0)) = Inr t"
    by (simp add: Let_def)
  from Cons(1)[OF this] lt show ?case by simp
qed

lemma emit_leaves_Inr_templates:
  "emitSubtreeSwitchesRecursively_leaves tree k nested numNodes ds cases = Inr cs \<Longrightarrow>
     \<forall>d \<in> set ds. \<forall>e \<in> set (snd d). fst e < 32"
proof (induction ds arbitrary: cases)
  case Nil
  show ?case by simp
next
  case (Cons d ds)
  from Cons(2) obtain t cases1 where
    t: "buildFixedConditionVectorTemplate (snd d) = Inr t"
    and r: "emitSubtreeSwitchesRecursively_leaves tree k nested numNodes ds cases1 = Inr cs"
    by (simp add: Let_def split: sum.splits)
  from t have "\<forall>e \<in> set (snd d). fst e < 32"
    unfolding buildFixedConditionVectorTemplate_def by (rule template_loop_Inr_keys)
  with Cons(1)[OF r] show ?case by simp
qed

lemma first_descriptor_key:
  "2 ^ r * (b + 2) - 2 \<in> fst ` set (snd (hd (leafPaths b (Suc r))))"
proof (induction r arbitrary: b)
  case 0
  show ?case by (simp add: leafPaths_hd markPath_def del: leafPaths.simps)
next
  case (Suc r)
  have eq: "(2::nat) ^ Suc r * (b + 2) = 2 ^ r * (2 * b + 2 + 2)" by (simp add: algebra_simps)
  have "2 ^ Suc r * (b + 2) - 2 \<in> fst ` set (snd (hd (leafPaths (2 * b + 2) (Suc r))))"
    unfolding eq by (rule Suc)
  then show ?case
    unfolding leafPaths_hd(2)[of b "Suc r"] markPath_def snd_conv dom_update by (rule UnI2)
qed

lemma emit_Inr_small:
  assumes pt: "perfect_tree tree D" and inside: "Log2 (R + 1) + k \<le> D"
    and emit: "emitSubtreeSwitchesRecursively tree R k nested = Inr sw"
  shows "k \<le> 5"
proof (rule ccontr)
  assume "\<not> k \<le> 5"
  then obtain r where k: "k = Suc r" and r: "5 \<le> r" by (cases k) auto
  let ?g = "getNodeIdxForSubtreeBitOffset R k"
  from emitComputeConditionVector_result[OF pt inside] obtain code offs where
    ccv: "emitComputeConditionVector tree R k (TreeNodes k) [] = Inr (code, offs)" by blast
  define ds where "ds = map (\<lambda>d. (?g (fst d), snd d)) (leafPaths 0 k)"
  have build: "buildSubtreeLeafNodePathsBitsMapsRecursively tree R k offs [] = Inr ds"
    using descriptors_result[OF pt inside ccv, of "[]"] by (simp add: ds_def)
  from emit obtain cs where
    "emitSubtreeSwitchesRecursively_leaves tree k nested (TreeNodes k) ds [] = Inr cs"
    by (subst (asm) emitSubtreeSwitchesRecursively.simps)
       (simp add: Let_def ccv build split: if_splits sum.splits)
  from emit_leaves_Inr_templates[OF this]
  have keys: "\<forall>d \<in> set ds. \<forall>e \<in> set (snd d). fst e < 32" .
  have "hd (leafPaths 0 k) \<in> set (leafPaths 0 k)" using leafPaths_nonempty by simp
  then have "(?g (fst (hd (leafPaths 0 k))), snd (hd (leafPaths 0 k))) \<in> set ds"
    unfolding ds_def by force
  with keys have "\<forall>e \<in> set (snd (hd (leafPaths 0 k))). fst e < 32" by force
  moreover have "2 ^ r * (0 + 2) - 2 \<in> fst ` set (snd (hd (leafPaths 0 k)))"
    unfolding k by (rule first_descriptor_key)
  ultimately have "2 ^ r * (0 + 2) - 2 < (32::nat)" by force
  moreover have "(2::nat) ^ 5 \<le> 2 ^ r" using r by (intro power_increasing) simp_all
  ultimately show False by simp
qed

lemma emitSubtreeEvaluation_Inr:
  assumes "emitSubtreeEvaluation tree R fD sD = Inr body"
  shows "0 < sD \<and> sD dvd fD
       \<and> emitSubtreeSwitchesRecursively tree R sD (fD div sD - 1) = Inr body"
  using assms by (auto simp: emitSubtreeEvaluation_def split: if_splits)

lemma compiled_evaluator_descends:
  assumes pt: "perfect_tree tree D" and fr: "features_in_range tree x"
    and comp: "compileEvaluators intr tree D fD sD = Inr evs"
    and root: "fD dvd Log2 (i + 1)" "Log2 (i + 1) < D"
  shows "\<exists>f j. map_at evs i = Inr f \<and> f x = Some j \<and> descend intr tree x i fD = Some j
           \<and> j \<in> set (subtreeLevel i fD) \<and> 0 < sD \<and> sD \<le> 5 \<and> sD dvd fD"
proof -
  note ci = compileEvaluators_Inr[OF comp]
  have f0: "0 < fD" and fdv: "fD dvd D" using ci by simp_all
  have all: "\<forall>i \<in> evaluatorRoots D fD. \<exists>body. emitSubtreeEvaluation tree i fD sD = Inr body
             \<and> map_of evs i = Some (\<lambda>data. exec_eval_ir intr data body)"
    by (rule ci[THEN conjunct2, THEN conjunct2, THEN conjunct2, THEN conjunct2, THEN conjunct2])
  have "i \<in> evaluatorRoots D fD"
    using root internal_iff_level[of i D] by (simp add: evaluatorRoots_def)
  with all obtain body where
    body: "emitSubtreeEvaluation tree i fD sD = Inr body"
    and f: "map_of evs i = Some (\<lambda>data. exec_eval_ir intr data body)" by blast
  from emitSubtreeEvaluation_Inr[OF body] have s0: "0 < sD" and sdv: "sD dvd fD"
    and emit: "emitSubtreeSwitchesRecursively tree i sD (fD div sD - 1) = Inr body" by simp_all
  have inside: "Log2 (i + 1) + fD \<le> D" by (rule level_step_le[OF f0 fdv root])
  have "sD \<le> fD" using sdv f0 by (rule dvd_imp_le)
  then have "Log2 (i + 1) + sD \<le> D" using inside by simp
  from emit_Inr_small[OF pt this emit] have s5: "sD \<le> 5" .
  from emitSubtreeEvaluation_result[OF pt fr s0 s5 sdv f0 inside, of intr] obtain j where
    j: "descend intr tree x i fD = Some j" "exec_eval_ir intr x body = Some j"
    using body by auto
  from descend_total[OF pt fr inside, of intr] j(1) have "j \<in> set (subtreeLevel i fD)" by auto
  with f j s0 s5 sdv show ?thesis by (simp add: map_at_Inr_iff)
qed

lemma run_loop_reference:
  assumes pt: "perfect_tree tree D" and fr: "features_in_range tree x"
    and comp: "compileEvaluators intr tree D fD sD = Inr evs"
    and "fD dvd Log2 (idx + 1)" "Log2 (idx + 1) \<le> D"
  shows "\<exists>leaf. run_loop evs (2 ^ D - 1) x idx = Some (Inr leaf)
           \<and> reference_traversal intr tree (2 ^ D - 1) x idx = Some leaf
           \<and> Log2 (leaf + 1) = D"
  using assms(4,5)
proof (induction "D - Log2 (idx + 1)" arbitrary: idx rule: less_induct)
  case less
  from compileEvaluators_Inr[OF comp] have f0: "0 < fD" and fdv: "fD dvd D" by simp_all
  show ?case
  proof (cases "Log2 (idx + 1) < D")
    case False
    then have l: "Log2 (idx + 1) = D" using less.prems(2) by simp
    then have ni: "\<not> idx < 2 ^ D - 1" using internal_iff_level[of idx D] by simp
    then have "run_loop evs (2 ^ D - 1) x idx = Some (Inr idx)"
      by (subst run_loop.simps) simp
    moreover have "reference_traversal intr tree (2 ^ D - 1) x idx = Some idx"
      using ni by (subst reference_traversal.simps) simp
    ultimately show ?thesis using l by blast
  next
    case True
    from compiled_evaluator_descends[OF pt fr comp less.prems(1) True] obtain f idx1 where
      s: "map_at evs idx = Inr f" "f x = Some idx1" "descend intr tree x idx fD = Some idx1"
         "idx1 \<in> set (subtreeLevel idx fD)" by blast
    have l1: "Log2 (idx1 + 1) = Log2 (idx + 1) + fD" by (rule subtreeLevel_level[OF s(4)])
    have inside: "Log2 (idx + 1) + fD \<le> D" by (rule level_step_le[OF f0 fdv less.prems(1) True])
    have dv1: "fD dvd Log2 (idx1 + 1)" unfolding l1 using less.prems(1) by simp
    have le1: "Log2 (idx1 + 1) \<le> D" unfolding l1 by (rule inside)
    have "D - Log2 (idx1 + 1) < D - Log2 (idx + 1)" using l1 True f0 by simp
    from less.hyps[OF this dv1 le1] obtain leaf where
      leaf: "run_loop evs (2 ^ D - 1) x idx1 = Some (Inr leaf)"
        "reference_traversal intr tree (2 ^ D - 1) x idx1 = Some leaf" "Log2 (leaf + 1) = D" by blast
    have "idx < 2 ^ D - 1" using True internal_iff_level[of idx D] by simp
    then have "run_loop evs (2 ^ D - 1) x idx = run_loop evs (2 ^ D - 1) x idx1"
      by (subst run_loop.simps) (simp add: s(1,2))
    moreover have "reference_traversal intr tree (2 ^ D - 1) x idx =
        reference_traversal intr tree (2 ^ D - 1) x idx1"
      using reference_descend[OF inside, of intr tree x] s(3) by simp
    ultimately show ?thesis using leaf by simp
  qed
qed

section \<open>Routing below a node\<close>

lemma subtreeLevel_compose:
  "a \<in> set (subtreeLevel R p) \<Longrightarrow> b \<in> set (subtreeLevel a q) \<Longrightarrow> b \<in> set (subtreeLevel R (p + q))"
proof (induction p arbitrary: R)
  case 0
  then show ?case by simp
next
  case (Suc p)
  from Suc(2) have "a \<in> set (subtreeLevel (2 * R + 1) p) \<or> a \<in> set (subtreeLevel (2 * R + 2) p)"
    unfolding subtreeLevel_split by simp
  then have "b \<in> set (subtreeLevel (2 * R + 1) (p + q)) \<or> b \<in> set (subtreeLevel (2 * R + 2) (p + q))"
    using Suc(1)[OF _ Suc(3)] by blast
  then have "b \<in> set (subtreeLevel R (Suc (p + q)))" unfolding subtreeLevel_split by simp
  then show ?case by simp
qed

lemma descend_in_level:
  "descend intr tree x i r = Some j \<Longrightarrow> j \<in> set (subtreeLevel i r)"
proof (induction r arbitrary: i)
  case 0
  then show ?case by simp
next
  case (Suc r)
  from Suc(2) obtain b where "descend intr tree x (if b then 2 * i + 2 else 2 * i + 1) r = Some j"
    by (auto split: option.splits)
  from Suc(1)[OF this] show ?case unfolding subtreeLevel_split by (cases b) simp_all
qed

lemma node_in_level: "n \<in> set (subtreeLevel 0 (Log2 (n + 1)))"
  using Log2_bounds[of "n + 1"] by (simp add: subtreeLevel_eq) linarith

lemma descend_avoids_true_child:
  assumes node: "map_of tree n = Some node" and p: "node_predicate intr node x = Some False"
  shows "descend intr tree x i r = Some j \<Longrightarrow> n \<in> set (subtreeLevel i l) \<Longrightarrow>
     j \<notin> set (subtreeLevel (2 * n + 2) q)"
proof (induction r arbitrary: i l)
  case 0
  show ?case
  proof
    assume "j \<in> set (subtreeLevel (2 * n + 2) q)"
    then have "Log2 (j + 1) = Log2 (2 * n + 2 + 1) + q" by (rule subtreeLevel_level)
    moreover have "Log2 (2 * n + 2 + 1) = Suc (Log2 (n + 1))"
      using Log2_double[of n] by (simp add: numeral_3_eq_3)
    moreover have "Log2 (n + 1) = Log2 (i + 1) + l" using 0(2) by (rule subtreeLevel_level)
    moreover have "j = i" using 0(1) by simp
    ultimately show False by simp
  qed
next
  case (Suc r)
  note IH = Suc.IH and inl = Suc.prems(2)
  from Suc(2) obtain nodei b where
    ni: "map_of tree i = Some nodei" "node_predicate intr nodei x = Some b"
    and d: "descend intr tree x (if b then 2 * i + 2 else 2 * i + 1) r = Some j"
    by (auto split: option.splits)
  define c where "c = (if b then 2 * i + 2 else 2 * i + 1)"
  define c' where "c' = (if b then 2 * i + 1 else 2 * i + 2)"
  have jc: "j \<in> set (subtreeLevel c r)" using descend_in_level[OF d] by (simp add: c_def)
  have disj: "set (subtreeLevel c r) \<inter> set (subtreeLevel c' r) = {}"
    using subtreeLevel_children_disjoint[of i r] by (auto simp: c_def c'_def)
  have lc: "Log2 (c + 1) = Log2 (c' + 1)"
    using Log2_double[of i] by (simp add: c_def c'_def numeral_3_eq_3)
  show ?case
  proof (cases l)
    case 0
    then have "n = i" using inl by simp
    then have "b = False" using ni node p by simp
    then have cc: "c = 2 * n + 1" "c' = 2 * n + 2" using \<open>n = i\<close> by (simp_all add: c_def c'_def)
    show ?thesis
    proof
      assume a: "j \<in> set (subtreeLevel (2 * n + 2) q)"
      have "Log2 (j + 1) = Log2 (c + 1) + r" using jc by (rule subtreeLevel_level)
      moreover have "Log2 (j + 1) = Log2 (c' + 1) + q"
        using subtreeLevel_level[OF a] by (simp add: cc)
      ultimately have "q = r" using lc by simp
      then show False using a jc disj by (auto simp: cc)
    qed
  next
    case (Suc l')
    have "n \<in> set (subtreeLevel (2 * i + 1) l' @ subtreeLevel (2 * i + 2) l')"
      using inl unfolding Suc subtreeLevel_split .
    then have "n \<in> set (subtreeLevel c l') \<or> n \<in> set (subtreeLevel c' l')"
      by (cases b) (auto simp: c_def c'_def)
    then show ?thesis
    proof
      assume "n \<in> set (subtreeLevel c l')"
      then show ?thesis using IH[of c l'] d by (simp add: c_def)
    next
      assume nc: "n \<in> set (subtreeLevel c' l')"
      show ?thesis
      proof
        assume a: "j \<in> set (subtreeLevel (2 * n + 2) q)"
        then have "j \<in> set (subtreeLevel n (Suc q))" unfolding subtreeLevel_split by simp
        from subtreeLevel_compose[OF nc this] have jc': "j \<in> set (subtreeLevel c' (l' + Suc q))" .
        have "Log2 (j + 1) = Log2 (c + 1) + r" using jc by (rule subtreeLevel_level)
        moreover have "Log2 (j + 1) = Log2 (c' + 1) + (l' + Suc q)" using jc' by (rule subtreeLevel_level)
        ultimately have "l' + Suc q = r" using lc by simp
        then show False using jc jc' disj by auto
      qed
    qed
  qed
qed

lemma descend_below_false_child:
  assumes node: "map_of tree n = Some node" and p: "node_predicate intr node x = Some False"
    and d: "descend intr tree x i r = Some j" and n: "n \<in> set (subtreeLevel i l)"
    and j: "j \<in> set (subtreeLevel n (Suc q))"
  shows "j \<in> set (subtreeLevel (2 * n + 1) q)"
  using descend_avoids_true_child[OF node p d n, of q] j unfolding subtreeLevel_split by simp

lemma reference_is_descend:
  assumes pt: "perfect_tree tree D" and fr: "features_in_range tree x"
  shows "reference_interpreter intr tree D x = descend intr tree x 0 D"
proof -
  have inside: "Log2 (0 + 1) + D \<le> D" by (simp add: Log2_1)
  from descend_total[OF pt fr this, of intr] obtain j where
    j: "descend intr tree x 0 D = Some j" "j \<in> set (subtreeLevel 0 D)" by blast
  have "Log2 (j + 1) = D" using subtreeLevel_level[OF j(2)] by (simp add: Log2_1)
  then have "\<not> j < 2 ^ D - 1" using internal_iff_level[of j D] by simp
  then have "reference_traversal intr tree (2 ^ D - 1) x j = Some j"
    by (subst reference_traversal.simps) simp
  then show ?thesis
    unfolding reference_interpreter_def using reference_descend[OF inside, of intr tree x] j(1) by simp
qed

lemma compileEvaluators_perfect:
  assumes pt: "perfect_tree tree D" and f: "0 < fD" "fD dvd D" and s: "0 < sD" "sD \<le> 5" "sD dvd fD"
  shows "\<exists>evs. compileEvaluators intr tree D fD sD = Inr evs"
proof (rule compileEvaluators_success[OF f])
  show "\<forall>i \<in> evaluatorRoots D fD.
      (\<exists>node. map_at tree i = Inr node) \<and> (\<exists>body. emitSubtreeEvaluation tree i fD sD = Inr body)"
  proof
    fix i assume "i \<in> evaluatorRoots D fD"
    then have i: "i < 2 ^ D - 1" "fD dvd Log2 (i + 1)" by (simp_all add: evaluatorRoots_def)
    then have lv: "Log2 (i + 1) < D" using internal_iff_level[of i D] by simp
    have inside: "Log2 (i + 1) + fD \<le> D" by (rule level_step_le[OF f i(2) lv])
    from perfect_tree_node[OF pt i(1)] have "\<exists>node. map_at tree i = Inr node" by blast
    moreover have "\<exists>body. emitSubtreeEvaluation tree i fD sD = Inr body"
      by (rule emitSubtreeEvaluation_success[OF pt s f(1) inside])
    ultimately show "(\<exists>node. map_at tree i = Inr node)
        \<and> (\<exists>body. emitSubtreeEvaluation tree i fD sD = Inr body)" by (rule conjI)
  qed
qed

lemma run_is_descend:
  assumes pt: "perfect_tree tree D" and fr: "features_in_range tree x"
    and comp: "compileEvaluators intr tree D fD sD = Inr evs"
  shows "\<exists>leaf. run evs tree x = Some (Inr leaf) \<and> reference_interpreter intr tree D x = Some leaf
            \<and> descend intr tree x 0 D = Some leaf \<and> Log2 (leaf + 1) = D"
proof -
  have "fD dvd Log2 (0 + 1)" "Log2 (0 + 1) \<le> D" by (simp_all add: Log2_1)
  from run_loop_reference[OF pt fr comp this] obtain leaf where
    "run_loop evs (2 ^ D - 1) x 0 = Some (Inr leaf)"
    "reference_traversal intr tree (2 ^ D - 1) x 0 = Some leaf" "Log2 (leaf + 1) = D" by blast
  then show ?thesis
    using reference_is_descend[OF pt fr, of intr]
    by (simp add: run_def perfect_tree_length[OF pt] reference_interpreter_def)
qed

section \<open>A switch of six levels\<close>

lemma six_levels_emit:
  "emitSubtreeSwitchesRecursively example_tree6 0 6 0 = Inl UndefinedBehavior"
proof -
  have l: "Log2 (0 + 1) + 6 \<le> 6" by (simp add: Log2_1)
  obtain code offs where
    e: "emitComputeConditionVector example_tree6 0 6 (TreeNodes 6) [] = Inr (code, offs)"
    using emitComputeConditionVector_result[OF example_tree6_perfect l] by blast
  define ds where "ds = map (\<lambda>d. (getNodeIdxForSubtreeBitOffset 0 6 (fst d), snd d)) (leafPaths 0 6)"
  have b: "buildSubtreeLeafNodePathsBitsMapsRecursively example_tree6 0 6 offs [] = Inr ds"
    using descriptors_result[OF example_tree6_perfect l e, of "[]"] by (simp add: ds_def)
  have len: "length ds = PowerOf2 6" by (simp add: ds_def leafPaths_length PowerOf2_def)
  have ne: "ds \<noteq> []" by (simp add: ds_def leafPaths_nonempty)
  then obtain d0 rest where dr: "ds = d0 # rest" by (cases ds) auto
  have "snd (hd ds) = snd (hd (leafPaths 0 6))"
    unfolding ds_def by (simp add: hd_map leafPaths_nonempty del: leafPaths.simps)
  then have m: "snd d0 = [(62, True), (30, True), (14, True), (6, True), (2, True), (0, True)]"
    unfolding first_descriptor_6 dr by simp
  have t: "buildFixedConditionVectorTemplate (snd d0) = Inl UndefinedBehavior"
    unfolding m by (simp add: buildFixedConditionVectorTemplate_def)
  have lv: "emitSubtreeSwitchesRecursively_leaves example_tree6 6 0 (TreeNodes 6) ds []
      = Inl UndefinedBehavior"
    unfolding dr by (simp add: Let_def t)
  show ?thesis
    by (subst emitSubtreeSwitchesRecursively.simps) (simp add: Let_def e b len lv)
qed

lemma six_levels_compile:
  "compileEvaluators intr example_tree6 6 6 6 = Inl UndefinedBehavior"
proof -
  have n: "getNumCompiledEvaluators 6 6 = Inr (\<Sum>k<6 div 6. 2 ^ (k * 6))"
    by (rule getNumCompiledEvaluators_dvd) simp_all
  have "(0::nat) < 2 ^ 6 - 1" by simp
  from perfect_tree_node[OF example_tree6_perfect this] obtain node where
    node: "map_at example_tree6 0 = Inr node" by blast
  have ev: "emitSubtreeEvaluation example_tree6 0 6 6 = Inl UndefinedBehavior"
    by (simp add: emitSubtreeEvaluation_def six_levels_emit)
  have nodes: "compileEvaluators_nodes example_tree6 6 6 0 (Suc 0) [] [] = Inl UndefinedBehavior"
    by (subst compileEvaluators_nodes.simps) (simp add: node ev)
  have "compileEvaluators_levels example_tree6 6 6 6 0 [] [] = Inl UndefinedBehavior"
    by (subst compileEvaluators_levels.simps) (simp add: TreeNodes_def nodes)
  then show ?thesis by (simp add: compileEvaluators_def n)
qed

section \<open>Claim C1: the compiled evaluation and the reference traversal\<close>

text \<open>
  Claim C1. For a perfect tree of depth \<open>D\<close> and an input vector that holds every
  feature the tree reads, the evaluators that \<^verbatim>\<open>compileEvaluators\<close> returns (condition
  vector and switch, nested by \<^verbatim>\<open>emitSubtreeSwitchesRecursively\<close>), iterated by
  \<^verbatim>\<open>run\<close> from node 0, end in the leaf that the reference traversal ends in: the
  traversal that starts at node 0 and takes the true child \<open>2i+2\<close> when the node
  predicate holds and the false child \<open>2i+1\<close> otherwise. The leaf lies in
  \<open>[N, N + 2^D)\<close> with \<open>N = 2^D - 1\<close>.
\<close>

theorem compiled_evaluation_equals_reference:
  assumes "perfect_tree tree D" and "features_in_range tree x"
    and "compileEvaluators intr tree D fD sD = Inr evs"
  shows "\<exists>leaf. run evs tree x = Some (Inr leaf)
           \<and> reference_interpreter intr tree D x = Some leaf
           \<and> 2 ^ D - 1 \<le> leaf \<and> leaf < 2 ^ D - 1 + 2 ^ D"
proof -
  from run_is_descend[OF assms] obtain leaf where
    l: "run evs tree x = Some (Inr leaf)" "reference_interpreter intr tree D x = Some leaf"
       "Log2 (leaf + 1) = D" by blast
  from leaf_range_level[OF l(3)] l(1,2) show ?thesis by blast
qed

theorem compiled_evaluation_equals_reference_witness:
  "\<exists>evs. compileEvaluators example_intrinsics example_tree2 2 2 1 = Inr evs
      \<and> run evs example_tree2 [Finite 1, Finite 1, Finite 0] = Some (Inr 4)
      \<and> reference_interpreter example_intrinsics example_tree2 2 [Finite 1, Finite 1, Finite 0] = Some 4"
proof -
  obtain evs where comp: "compileEvaluators example_intrinsics example_tree2 2 2 1 = Inr evs"
    using compileEvaluators_perfect[OF example_tree2_perfect, of 2 1 example_intrinsics] by auto
  have fr: "features_in_range example_tree2 [Finite 1, Finite 1, Finite 0]"
    by (simp add: features_in_range_def example_tree2_def)
  have ref: "reference_interpreter example_intrinsics example_tree2 2 [Finite 1, Finite 1, Finite 0] = Some 4"
    by (simp add: reference_interpreter_def reference_traversal.simps example_tree2_def
        node_predicate_def comparator_def apply_op_def example_intrinsics_def)
  from compiled_evaluation_equals_reference[OF example_tree2_perfect fr comp] ref comp
  show ?thesis by auto
qed

section \<open>Claim C9: NaN takes the false branch\<close>

text \<open>
  Claim C9. If the loaded and op-transformed feature value of a node is NaN, the
  emitted predicate of the node is false, whatever the comparator of the node is: the
  emitter uses the ordered comparisons for LessThan and for GreaterThan alike, so the
  bit of the node in the condition vector stays 0. The traversal then takes the false
  branch at the node. When the node is the root of an evaluator, the emitted evaluator
  returns a node below the false child \<open>2n+1\<close>. For every internal node \<open>n\<close> of a
  perfect tree, the leaf that \<^verbatim>\<open>run\<close> returns over the compiled evaluators is never
  below the true child \<open>2n+2\<close>, and it is below \<open>n\<close> exactly when it is below the
  false child \<open>2n+1\<close>.
\<close>

theorem NaN_takes_false_branch:
  assumes "eval_float_ir intr data (emitOperator (Op node) (LoadFeature (DataSetFeatureIdx node))) = Some NaN"
  shows "eval_bool_ir intr data (emitSingleNodeEvaluaton node) = Some False
       \<and> eval_bool_ir intr data
            (emitComparison LessThan bias (emitOperator (Op node) (LoadFeature (DataSetFeatureIdx node))))
           = Some False
       \<and> eval_bool_ir intr data
            (emitComparison GreaterThan bias (emitOperator (Op node) (LoadFeature (DataSetFeatureIdx node))))
           = Some False
       \<and> (int_value shiftAmount < ty \<longrightarrow>
            exec_cond_code intr data ty [(emitSingleNodeEvaluaton node, shiftAmount)] conditionVector
              = Some conditionVector)
       \<and> (perfect_tree tree D \<and> features_in_range tree data
            \<and> compileEvaluators intr tree D fD sD = Inr evs \<and> map_of tree n = Some node
            \<and> fD dvd Log2 (n + 1) \<longrightarrow>
            (\<exists>body j. emitSubtreeEvaluation tree n fD sD = Inr body
               \<and> map_at evs n = Inr (\<lambda>data. exec_eval_ir intr data body)
               \<and> exec_eval_ir intr data body = Some j
               \<and> j \<in> set (subtreeLevel (2 * n + 1) (fD - 1))))
       \<and> (perfect_tree tree D \<and> features_in_range tree data
            \<and> compileEvaluators intr tree D fD sD = Inr evs \<and> map_of tree n = Some node \<longrightarrow>
            (\<exists>leaf. run evs tree data = Some (Inr leaf)
               \<and> leaf \<notin> set (subtreeLevel (2 * n + 2) (D - Log2 (n + 1) - 1))
               \<and> (leaf \<in> set (subtreeLevel n (D - Log2 (n + 1)))
                    = (leaf \<in> set (subtreeLevel (2 * n + 1) (D - Log2 (n + 1) - 1))))))"
proof -
  have cmp: "eval_bool_ir intr data
      (emitComparison c b (emitOperator (Op node) (LoadFeature (DataSetFeatureIdx node)))) = Some False"
    for c b
    using assms by (cases c) (simp_all add: emitComparison_def isnan_def)
  have node: "eval_bool_ir intr data (emitSingleNodeEvaluaton node) = Some False"
    using cmp[of "Comp node" "Bias node"] by (simp add: emitSingleNodeEvaluaton_def Let_def)
  have vec: "int_value shiftAmount < ty \<longrightarrow>
      exec_cond_code intr data ty [(emitSingleNodeEvaluaton node, shiftAmount)] conditionVector
        = Some conditionVector"
    using node by simp
  have p: "node_predicate intr node data = Some False" using node unfolding emitted_predicate .
  have internal: "Log2 (n + 1) < D" if pt: "perfect_tree tree D" and n: "map_of tree n = Some node"
  proof -
    from n have "(n, node) \<in> set tree" by (rule map_of_SomeD)
    then have "fst (n, node) \<in> fst ` set tree" by (rule imageI)
    then have "n \<in> set (map fst tree)" by simp
    then have "n < 2 ^ D - 1" using pt by (simp add: perfect_tree_def)
    then show ?thesis using internal_iff_level[of n D] by simp
  qed
  have root: "\<exists>body j. emitSubtreeEvaluation tree n fD sD = Inr body
               \<and> map_at evs n = Inr (\<lambda>data. exec_eval_ir intr data body)
               \<and> exec_eval_ir intr data body = Some j
               \<and> j \<in> set (subtreeLevel (2 * n + 1) (fD - 1))"
    if pt: "perfect_tree tree D" and fr: "features_in_range tree data"
      and comp: "compileEvaluators intr tree D fD sD = Inr evs" and n: "map_of tree n = Some node"
      and dv: "fD dvd Log2 (n + 1)"
  proof -
    note ci = compileEvaluators_Inr[OF comp]
    have f0: "0 < fD" using ci by simp
    have all: "\<forall>i \<in> evaluatorRoots D fD. \<exists>body. emitSubtreeEvaluation tree i fD sD = Inr body
             \<and> map_of evs i = Some (\<lambda>data. exec_eval_ir intr data body)"
      by (rule ci[THEN conjunct2, THEN conjunct2, THEN conjunct2, THEN conjunct2, THEN conjunct2])
    have lv: "Log2 (n + 1) < D" by (rule internal[OF pt n])
    then have "n \<in> evaluatorRoots D fD"
      using dv internal_iff_level[of n D] by (simp add: evaluatorRoots_def)
    with all obtain body where
      body: "emitSubtreeEvaluation tree n fD sD = Inr body"
      and f: "map_of evs n = Some (\<lambda>data. exec_eval_ir intr data body)" by blast
    from compiled_evaluator_descends[OF pt fr comp dv lv] obtain g j where
      g: "map_at evs n = Inr g" "g data = Some j" "descend intr tree data n fD = Some j"
         "j \<in> set (subtreeLevel n fD)" by blast
    have "g = (\<lambda>data. exec_eval_ir intr data body)" using g(1) f by (simp add: map_at_Inr_iff)
    then have ex: "exec_eval_ir intr data body = Some j" using g(2) by simp
    obtain q where q: "fD = Suc q" using f0 by (cases fD) auto
    have "n \<in> set (subtreeLevel n 0)" by simp
    from descend_below_false_child[OF n p g(3) this, of q] g(4)
    have "j \<in> set (subtreeLevel (2 * n + 1) (fD - 1))" by (simp add: q)
    with body f ex show ?thesis by (simp add: map_at_Inr_iff)
  qed
  have leaf: "\<exists>leaf. run evs tree data = Some (Inr leaf)
               \<and> leaf \<notin> set (subtreeLevel (2 * n + 2) (D - Log2 (n + 1) - 1))
               \<and> (leaf \<in> set (subtreeLevel n (D - Log2 (n + 1)))
                    = (leaf \<in> set (subtreeLevel (2 * n + 1) (D - Log2 (n + 1) - 1))))"
    if pt: "perfect_tree tree D" and fr: "features_in_range tree data"
      and comp: "compileEvaluators intr tree D fD sD = Inr evs" and n: "map_of tree n = Some node"
  proof -
    from run_is_descend[OF pt fr comp] obtain leaf where
      l: "run evs tree data = Some (Inr leaf)" "descend intr tree data 0 D = Some leaf" by blast
    have lv: "Log2 (n + 1) < D" by (rule internal[OF pt n])
    then obtain q where q: "D - Log2 (n + 1) = Suc q" by (cases "D - Log2 (n + 1)") auto
    have a: "leaf \<notin> set (subtreeLevel (2 * n + 2) q)"
      by (rule descend_avoids_true_child[OF n p l(2) node_in_level])
    have "leaf \<in> set (subtreeLevel n (Suc q)) = (leaf \<in> set (subtreeLevel (2 * n + 1) q))"
      unfolding subtreeLevel_split using a by simp
    with a l(1) show ?thesis unfolding q by simp
  qed
  show ?thesis
    using cmp[of LessThan bias] cmp[of GreaterThan bias] node vec root leaf
    by (intro conjI impI) (simp_all only:)
qed

theorem NaN_takes_false_branch_witness:
  "eval_float_ir example_intrinsics [NaN, Finite 1, Finite 0]
      (emitOperator (Op (snd (hd example_tree2))) (LoadFeature (DataSetFeatureIdx (snd (hd example_tree2)))))
     = Some NaN
   \<and> eval_bool_ir example_intrinsics [NaN, Finite 1, Finite 0]
        (emitSingleNodeEvaluaton (snd (hd example_tree2))) = Some False
   \<and> exec_cond_code example_intrinsics [NaN, Finite 1, Finite 0] 64
        [(emitSingleNodeEvaluaton (snd (hd example_tree2)), ConstantInt 6 0)] 0 = Some 0
   \<and> (\<exists>evs. compileEvaluators example_intrinsics example_tree2 2 2 1 = Inr evs
        \<and> (\<exists>body j. emitSubtreeEvaluation example_tree2 0 2 1 = Inr body
              \<and> map_at evs 0 = Inr (\<lambda>data. exec_eval_ir example_intrinsics data body)
              \<and> exec_eval_ir example_intrinsics [NaN, Finite 1, Finite 0] body = Some j
              \<and> j \<in> {3, 4})
        \<and> (\<exists>leaf. run evs example_tree2 [NaN, Finite 1, Finite 0] = Some (Inr leaf)
              \<and> leaf \<in> {3, 4}))"
proof -
  let ?x = "[NaN, Finite 1, Finite 0]"
  let ?node = "snd (hd example_tree2)"
  have h: "eval_float_ir example_intrinsics ?x
      (emitOperator (Op ?node) (LoadFeature (DataSetFeatureIdx ?node))) = Some NaN"
    by (simp add: example_tree2_def emitOperator_def)
  have s: "int_value (ConstantInt 6 0) < 64" by simp
  obtain evs where comp: "compileEvaluators example_intrinsics example_tree2 2 2 1 = Inr evs"
    using compileEvaluators_perfect[OF example_tree2_perfect, of 2 1 example_intrinsics] by auto
  have fr: "features_in_range example_tree2 ?x"
    by (simp add: features_in_range_def example_tree2_def)
  have n: "map_of example_tree2 0 = Some ?node" by (simp add: example_tree2_def)
  have dv: "(2::nat) dvd Log2 (0 + 1)" by (simp add: Log2_1)
  have lv: "set (subtreeLevel (2 * 0 + 1) (2 - 1)) = {3, 4}"
    "set (subtreeLevel (2 * 0 + 1) (2 - Log2 (0 + 1) - 1)) = {3, 4}"
    "2 - Log2 (0 + 1) = 2"
    by (auto simp: Log2_1 subtreeLevel_eq)
  note t = NaN_takes_false_branch[OF h, where shiftAmount = "ConstantInt 6 0" and ty = 64
      and conditionVector = 0 and tree = example_tree2 and D = 2 and fD = 2 and sD = 1
      and evs = evs and n = 0 and bias = "Finite 0"]
  note t4 = t[THEN conjunct2, THEN conjunct2, THEN conjunct2]
  have p1: "eval_bool_ir example_intrinsics ?x (emitSingleNodeEvaluaton ?node) = Some False"
    by (rule t[THEN conjunct1])
  have p2: "exec_cond_code example_intrinsics ?x 64
        [(emitSingleNodeEvaluaton ?node, ConstantInt 6 0)] 0 = Some 0"
    by (rule t4[THEN conjunct1, THEN mp, OF s])
  have p3: "\<exists>body j. emitSubtreeEvaluation example_tree2 0 2 1 = Inr body
              \<and> map_at evs 0 = Inr (\<lambda>data. exec_eval_ir example_intrinsics data body)
              \<and> exec_eval_ir example_intrinsics ?x body = Some j \<and> j \<in> {3, 4}"
    using t4[THEN conjunct2, THEN conjunct1] example_tree2_perfect fr comp n dv unfolding lv by blast
  have "\<exists>leaf. run evs example_tree2 ?x = Some (Inr leaf)
         \<and> (leaf \<in> set (subtreeLevel 0 2)) = (leaf \<in> {3, 4})"
    using t4[THEN conjunct2, THEN conjunct2] example_tree2_perfect fr comp n unfolding lv by blast
  then obtain leaf where l: "run evs example_tree2 ?x = Some (Inr leaf)"
    "(leaf \<in> set (subtreeLevel 0 2)) = (leaf \<in> {3, 4})" by blast
  from run_is_descend[OF example_tree2_perfect fr comp] l(1) have "Log2 (leaf + 1) = 2" by auto
  with node_in_level[of leaf] l have p4: "\<exists>leaf. run evs example_tree2 ?x = Some (Inr leaf) \<and> leaf \<in> {3, 4}"
    by auto
  from h p1 p2 p3 p4 comp show ?thesis by blast
qed

section \<open>Claim C2: the variants of the leaf descriptors\<close>

text \<open>
  Claim C2, at the failing input: a switch of six levels, the largest that the
  specification allows, at the root of a perfect tree of depth 6. Its condition vector
  has 63 bits. \<^verbatim>\<open>emitComputeConditionVector\<close> builds it in a 64-bit integer and
  succeeds, but \<^verbatim>\<open>buildFixedConditionVectorTemplate\<close> and the variant enumerator hold
  condition vectors in 32-bit \<^verbatim>\<open>unsigned\<close> values: for the first leaf descriptor the
  fixed template shifts by 62, which is undefined, and no variant is produced. The
  claimed \<open>2^v\<close> variants and the partition of the values below \<open>2^63\<close> do not
  come about; \<^verbatim>\<open>emitSubtreeSwitchesRecursively\<close> and \<^verbatim>\<open>compileEvaluators\<close> fail
  with it.
\<close>

theorem conditionVectorVariants_six_levels:
  "perfect_tree example_tree6 6 \<and> Log2 (0 + 1) + 6 \<le> 6
   \<and> (\<exists>code offs. emitComputeConditionVector example_tree6 0 6 (TreeNodes 6) [] = Inr (code, offs))
   \<and> buildFixedConditionVectorTemplate
        (snd (hd (projr (buildSubtreeLeafNodePathsBitsMapsRecursively example_tree6 0 6
           (snd (projr (emitComputeConditionVector example_tree6 0 6 (TreeNodes 6) []))) []))))
       = Inl UndefinedBehavior
   \<and> conditionVectorVariants (TreeNodes 6)
        (snd (hd (projr (buildSubtreeLeafNodePathsBitsMapsRecursively example_tree6 0 6
           (snd (projr (emitComputeConditionVector example_tree6 0 6 (TreeNodes 6) []))) []))))
       = Inl UndefinedBehavior
   \<and> emitSubtreeSwitchesRecursively example_tree6 0 6 0 = Inl UndefinedBehavior
   \<and> compileEvaluators example_intrinsics example_tree6 6 6 6 = Inl UndefinedBehavior"
proof -
  have l: "Log2 (0 + 1) + 6 \<le> 6" by (simp add: Log2_1)
  obtain code offs where
    e: "emitComputeConditionVector example_tree6 0 6 (TreeNodes 6) [] = Inr (code, offs)"
    using emitComputeConditionVector_result[OF example_tree6_perfect l] by blast
  have o: "snd (projr (emitComputeConditionVector example_tree6 0 6 (TreeNodes 6) [])) = offs"
    by (simp add: e)
  have m: "snd (hd (projr (buildSubtreeLeafNodePathsBitsMapsRecursively example_tree6 0 6 offs [])))
      = [(62, True), (30, True), (14, True), (6, True), (2, True), (0, True)]"
    unfolding descriptors_result[OF example_tree6_perfect l e, of "[]"]
    by (simp add: hd_map leafPaths_nonempty first_descriptor_6 del: leafPaths.simps)
  have t: "buildFixedConditionVectorTemplate
      [(62, True), (30, True), (14, True), (6, True), (2, True), (0, True)] = Inl UndefinedBehavior"
    by (simp add: buildFixedConditionVectorTemplate_def)
  then have v: "conditionVectorVariants (TreeNodes 6)
      [(62, True), (30, True), (14, True), (6, True), (2, True), (0, True)] = Inl UndefinedBehavior"
    by (simp add: conditionVectorVariants_def)
  have c: "\<exists>code offs. emitComputeConditionVector example_tree6 0 6 (TreeNodes 6) [] = Inr (code, offs)"
    using e by blast
  show ?thesis
    unfolding o m
    by (intro conjI example_tree6_perfect l c t v six_levels_emit six_levels_compile)
qed

section \<open>The levels of the evaluator roots\<close>

lemma evaluatorRoots_levels:
  assumes "0 < fD" and "fD dvd D"
  shows "evaluatorRoots D fD = {i. \<exists>k < D div fD. Log2 (i + 1) = k * fD}"
proof (intro equalityI subsetI)
  fix i assume "i \<in> evaluatorRoots D fD"
  then have i: "i < 2 ^ D - 1" "fD dvd Log2 (i + 1)" by (simp_all add: evaluatorRoots_def)
  then have lv: "Log2 (i + 1) < D" using internal_iff_level[of i D] by simp
  from i(2) obtain k where k: "Log2 (i + 1) = fD * k" ..
  have "D = fD * (D div fD)" using assms(2) by simp
  then have "fD * k < fD * (D div fD)" using lv k by simp
  then have "k < D div fD" by simp
  then show "i \<in> {i. \<exists>k < D div fD. Log2 (i + 1) = k * fD}" using k by (auto simp: mult.commute)
next
  fix i assume "i \<in> {i. \<exists>k < D div fD. Log2 (i + 1) = k * fD}"
  then obtain k where k: "k < D div fD" "Log2 (i + 1) = k * fD" by blast
  have "k * fD < (D div fD) * fD" using k(1) assms(1) by simp
  then have "Log2 (i + 1) < D" using assms(2) k(2) by simp
  then have "i < 2 ^ D - 1" using internal_iff_level[of i D] by simp
  then show "i \<in> evaluatorRoots D fD" using k(2) by (simp add: evaluatorRoots_def)
qed

section \<open>Claim C8: one evaluator per node of every functionDepth-th level\<close>

text \<open>
  Claim C8. For a tree depth \<open>D\<close> and a \<open>functionDepth\<close> that divides it,
  \<^verbatim>\<open>getNumCompiledEvaluators\<close> returns the sum of \<open>2^(k * functionDepth)\<close> over
  \<open>k < D / functionDepth\<close>. The map that \<^verbatim>\<open>compileEvaluators\<close> returns has one entry
  for each internal node on a level \<open>k * functionDepth\<close> with \<open>k < D / functionDepth\<close>
  and no other entry; its size is that sum, the value of \<^verbatim>\<open>getNumCompiledEvaluators\<close>.
  On a perfect tree and a switch depth of at most five levels that divides
  \<open>functionDepth\<close>, \<^verbatim>\<open>compileEvaluators\<close> does return a map.
\<close>

theorem evaluators_per_level:
  assumes "0 < fD" and "fD dvd D"
  shows "getNumCompiledEvaluators D fD = Inr (\<Sum>k<D div fD. 2 ^ (k * fD))
       \<and> evaluatorRoots D fD = {i. \<exists>k < D div fD. Log2 (i + 1) = k * fD}
       \<and> (compileEvaluators intr tree D fD sD = Inr evs \<longrightarrow>
            distinct (map fst evs) \<and> set (map fst evs) = evaluatorRoots D fD
          \<and> length evs = (\<Sum>k<D div fD. 2 ^ (k * fD))
          \<and> getNumCompiledEvaluators D fD = Inr (length evs))
       \<and> (perfect_tree tree D \<and> 0 < sD \<and> sD \<le> 5 \<and> sD dvd fD \<longrightarrow>
            (\<exists>evs. compileEvaluators intr tree D fD sD = Inr evs))"
proof -
  have n: "getNumCompiledEvaluators D fD = Inr (\<Sum>k<D div fD. 2 ^ (k * fD))"
    by (rule getNumCompiledEvaluators_dvd[OF assms])
  have r: "evaluatorRoots D fD = {i. \<exists>k < D div fD. Log2 (i + 1) = k * fD}"
    by (rule evaluatorRoots_levels[OF assms])
  have c: "distinct (map fst evs) \<and> set (map fst evs) = evaluatorRoots D fD
          \<and> length evs = (\<Sum>k<D div fD. 2 ^ (k * fD))
          \<and> getNumCompiledEvaluators D fD = Inr (length evs)"
    if "compileEvaluators intr tree D fD sD = Inr evs"
    using compileEvaluators_Inr[OF that] n by simp
  have s: "\<exists>evs. compileEvaluators intr tree D fD sD = Inr evs"
    if "perfect_tree tree D \<and> 0 < sD \<and> sD \<le> 5 \<and> sD dvd fD"
    using compileEvaluators_perfect[OF _ assms, of tree sD intr] that by blast
  from n r c s show ?thesis by (intro conjI impI) (simp_all only:)
qed

theorem evaluators_per_level_witness:
  "getNumCompiledEvaluators 2 1 = Inr 3
   \<and> (\<exists>evs. compileEvaluators example_intrinsics example_tree2 2 1 1 = Inr evs
        \<and> distinct (map fst evs) \<and> set (map fst evs) = {0, 1, 2} \<and> length evs = 3)"
proof -
  have f: "(0::nat) < 1" "(1::nat) dvd 2" by simp_all
  have s: "perfect_tree example_tree2 2 \<and> (0::nat) < 1 \<and> (1::nat) \<le> 5 \<and> (1::nat) dvd 1"
    using example_tree2_perfect by simp
  have sum: "(\<Sum>k<(2::nat) div 1. (2::nat) ^ (k * 1)) = 3" by (simp add: lessThan_Suc numeral_2_eq_2)
  have roots: "evaluatorRoots 2 1 = {0, 1, 2}" by (auto simp: evaluatorRoots_def)
  note t = evaluators_per_level[OF f, where intr = example_intrinsics and tree = example_tree2 and sD = 1]
  from t[THEN conjunct2, THEN conjunct2, THEN conjunct2, THEN mp, OF s] obtain evs where
    comp: "compileEvaluators example_intrinsics example_tree2 2 1 1 = Inr evs" by blast
  from t[where evs = evs, THEN conjunct2, THEN conjunct2, THEN conjunct1, THEN mp, OF comp]
  have "distinct (map fst evs) \<and> set (map fst evs) = {0, 1, 2} \<and> length evs = 3"
    unfolding sum roots by blast
  moreover have "getNumCompiledEvaluators 2 1 = Inr 3"
    using t[where evs = evs, THEN conjunct1] unfolding sum .
  ultimately show ?thesis using comp by blast
qed

end
